theory Spec2Isabelle
  imports Complex_Main
begin

section \<open>Strings of the source language\<close>

text \<open>
  A JavaScript string is a sequence of UTF-16 code units; \<^verbatim>\<open>s[i]\<close>, \<^verbatim>\<open>s.length\<close>,
  \<^verbatim>\<open>charCodeAt\<close> and \<^verbatim>\<open>trim\<close> all count code units. A code unit is modelled by its
  number (\<^verbatim>\<open>charCodeAt\<close> returns it, 0 to 65535) and a string by the list of its code
  units. Every theorem below that quantifies over strings holds for all such lists.
\<close>

type_synonym jschar = nat
type_synonym jsstring = "nat list"

text \<open>An ASCII or Latin-1 literal of the source, written as an Isabelle string.\<close>

definition js :: "string \<Rightarrow> jsstring" where
  "js s = map of_char s"

abbreviation QUOTE :: jschar where "QUOTE \<equiv> 34"   \<comment> \<open>\<^verbatim>\<open>'"'\<close>\<close>
abbreviation COMMA :: jschar where "COMMA \<equiv> 44"   \<comment> \<open>\<^verbatim>\<open>','\<close>\<close>
abbreviation LF :: jschar where "LF \<equiv> 10"         \<comment> \<open>\<^verbatim>\<open>'\n'\<close>\<close>
abbreviation CR :: jschar where "CR \<equiv> 13"         \<comment> \<open>\<^verbatim>\<open>'\r'\<close>\<close>

text \<open>
  The code units that \<^verbatim>\<open>String.prototype.trim\<close> strips: the WhiteSpace and
  LineTerminator productions of ECMAScript (TAB, LF, VT, FF, CR, SP, NBSP, the Unicode
  space separators, LS, PS and the byte order mark).
\<close>

definition isWhiteSpace :: "jschar \<Rightarrow> bool" where
  "isWhiteSpace c \<longleftrightarrow>
     c = 9 \<or> c = 10 \<or> c = 11 \<or> c = 12 \<or> c = 13 \<or> c = 32 \<or> c = 160 \<or> c = 5760 \<or>
     (8192 \<le> c \<and> c \<le> 8202) \<or> c = 8232 \<or> c = 8233 \<or> c = 8239 \<or> c = 8287 \<or>
     c = 12288 \<or> c = 65279"

definition trimStart :: "jsstring \<Rightarrow> jsstring" where
  "trimStart s = dropWhile isWhiteSpace s"

definition trim :: "jsstring \<Rightarrow> jsstring" where
  "trim s = rev (dropWhile isWhiteSpace (rev (dropWhile isWhiteSpace s)))"

section \<open>parseCSVText\<close>

text \<open>
  \<^verbatim>\<open>csvText[i + 1]\<close>: the code unit after the current one, \<^verbatim>\<open>undefined\<close> (\<open>None\<close>)
  past the end of the text.
\<close>

definition nextChar :: "jsstring \<Rightarrow> jschar option" where
  "nextChar cs = (case cs of [] \<Rightarrow> None | n # _ \<Rightarrow> Some n)"

text \<open>
  \<^verbatim>\<open>currentRow.push(currentField); if (currentRow.some(...)) rows.push(currentRow)\<close>:
  the row is kept when the test \<open>nonblank\<close> holds of one of its fields.
\<close>

definition pushRow ::
  "(jsstring \<Rightarrow> bool) \<Rightarrow> jsstring list list \<Rightarrow> jsstring list \<Rightarrow> jsstring \<Rightarrow> jsstring list list" where
  "pushRow nonblank rows currentRow currentField =
     (if list_ex nonblank (currentRow @ [currentField])
      then rows @ [currentRow @ [currentField]] else rows)"

text \<open>
  The \<^verbatim>\<open>for\<close> loop of \<^verbatim>\<open>parseCSVText\<close> and the flush after it. The first argument of the
  equations is the text from index \<^verbatim>\<open>i\<close> on: \<open>c\<close> is \<^verbatim>\<open>char\<close>, \<open>nextChar cs\<close> is
  \<^verbatim>\<open>nextChar\<close>, continuing with \<open>tl cs\<close> is the extra \<^verbatim>\<open>i++\<close>. The file holds two copies
  of the function, which differ only in the test given to \<^verbatim>\<open>some\<close>; it is the parameter
  \<open>nonblank\<close>. A string is truthy when it is not empty.
\<close>

function scanCSV ::
  "(jsstring \<Rightarrow> bool) \<Rightarrow> jsstring \<Rightarrow> jsstring list list \<Rightarrow> jsstring list \<Rightarrow> jsstring \<Rightarrow> bool
     \<Rightarrow> jsstring list list" where
  "scanCSV nonblank [] rows currentRow currentField inQuotes =
     (if currentField \<noteq> [] \<or> currentRow \<noteq> []
      then pushRow nonblank rows currentRow currentField
      else rows)"
| "scanCSV nonblank (c # cs) rows currentRow currentField inQuotes =
     (if c = QUOTE then
        (if inQuotes \<and> nextChar cs = Some QUOTE
         then scanCSV nonblank (tl cs) rows currentRow (currentField @ [QUOTE]) inQuotes
         else scanCSV nonblank cs rows currentRow currentField (\<not> inQuotes))
      else if c = COMMA \<and> \<not> inQuotes then
        scanCSV nonblank cs rows (currentRow @ [currentField]) [] inQuotes
      else if (c = LF \<or> c = CR) \<and> \<not> inQuotes then
        (if currentField \<noteq> [] \<or> currentRow \<noteq> [] then
           scanCSV nonblank (if c = CR \<and> nextChar cs = Some LF then tl cs else cs)
             (pushRow nonblank rows currentRow currentField) [] [] inQuotes
         else
           scanCSV nonblank (if c = CR \<and> nextChar cs = Some LF then tl cs else cs)
             rows currentRow currentField inQuotes)
      else scanCSV nonblank cs rows currentRow (currentField @ [c]) inQuotes)"
  by pat_completeness auto
termination
  by (relation "measure (\<lambda>(nonblank, text, rows, currentRow, currentField, inQuotes). length text)")
    auto

text \<open>Lines 205 to 250: the test is \<^verbatim>\<open>field.trim().length > 0\<close>.\<close>

definition parseCSVText :: "jsstring \<Rightarrow> jsstring list list" where
  "parseCSVText csvText = scanCSV (\<lambda>field. length (trim field) > 0) csvText [] [] [] False"

text \<open>Lines 778 to 829, the second copy: the test is \<^verbatim>\<open>f.length > 0\<close>.\<close>

definition parseCSVText_v2 :: "jsstring \<Rightarrow> jsstring list list" where
  "parseCSVText_v2 csvText = scanCSV (\<lambda>f. length f > 0) csvText [] [] [] False"

section \<open>Numbers: parseFloat and isNaN\<close>

text \<open>
  The result of \<^verbatim>\<open>parseFloat\<close>. \<open>Finite q\<close> stands for the double nearest to the decimal
  value \<open>q\<close> that was read: the rounding of \<open>q\<close> to a double is not modelled, except
  that a value of magnitude \<open>2^1024 - 2^970\<close> or more rounds to an infinity.
\<close>

datatype jsnumber = NaN | PosInfinity | NegInfinity | Finite rat

definition isNaN :: "jsnumber \<Rightarrow> bool" where
  "isNaN x \<longleftrightarrow> x = NaN"

fun negate :: "jsnumber \<Rightarrow> jsnumber" where
  "negate NaN = NaN"
| "negate PosInfinity = NegInfinity"
| "negate NegInfinity = PosInfinity"
| "negate (Finite q) = Finite (- q)"

definition roundMV :: "rat \<Rightarrow> jsnumber" where
  "roundMV q = (if 2 ^ 1024 - 2 ^ 970 \<le> q then PosInfinity else Finite q)"

definition isDigit :: "jschar \<Rightarrow> bool" where
  "isDigit c \<longleftrightarrow> 48 \<le> c \<and> c \<le> 57"

definition digitsValue :: "jsstring \<Rightarrow> nat" where
  "digitsValue ds = foldl (\<lambda>a c. 10 * a + (c - 48)) 0 ds"

text \<open>
  The exponent part after the mantissa: \<^verbatim>\<open>e\<close> or \<^verbatim>\<open>E\<close>, an optional sign, and at least
  one digit; anything else is not part of the literal and the exponent is 0
  (as is the value of no digits).
\<close>

definition exponentPart :: "jsstring \<Rightarrow> int" where
  "exponentPart s =
     (case s of
        [] \<Rightarrow> 0
      | e # r \<Rightarrow>
          if e = 101 \<or> e = 69 then
            (case r of
               [] \<Rightarrow> 0
             | sg # r' \<Rightarrow>
                 if sg = 45 then - int (digitsValue (takeWhile isDigit r'))
                 else if sg = 43 then int (digitsValue (takeWhile isDigit r'))
                 else int (digitsValue (takeWhile isDigit r)))
          else 0)"

definition scale10 :: "rat \<Rightarrow> int \<Rightarrow> rat" where
  "scale10 q e = (if 0 \<le> e then q * 10 ^ nat e else q / 10 ^ nat (- e))"

text \<open>
  The longest prefix that is a StrUnsignedDecimalLiteral of ECMAScript
  (\<^verbatim>\<open>Infinity\<close>, \<^verbatim>\<open>digits . digits? exponent?\<close>, \<^verbatim>\<open>. digits exponent?\<close> or
  \<^verbatim>\<open>digits exponent?\<close>) and its value; \<open>NaN\<close> when no prefix is one.
\<close>

definition strUnsignedDecimalLiteral :: "jsstring \<Rightarrow> jsnumber" where
  "strUnsignedDecimalLiteral s =
     (if take 8 s = js ''Infinity'' then PosInfinity
      else
        let intDigits = takeWhile isDigit s;
            afterInt = dropWhile isDigit s;
            hasPoint = (nextChar afterInt = Some 46);
            fracDigits = (if hasPoint then takeWhile isDigit (tl afterInt) else []);
            afterMantissa = (if hasPoint then dropWhile isDigit (tl afterInt) else afterInt)
        in if intDigits = [] \<and> fracDigits = [] then NaN
           else roundMV (scale10
                  (of_nat (digitsValue intDigits)
                     + of_nat (digitsValue fracDigits) / 10 ^ length fracDigits)
                  (exponentPart afterMantissa)))"

definition parseFloat :: "jsstring \<Rightarrow> jsnumber" where
  "parseFloat s =
     (case trimStart s of
        [] \<Rightarrow> NaN
      | c # r \<Rightarrow>
          if c = 45 then negate (strUnsignedDecimalLiteral r)
          else if c = 43 then strUnsignedDecimalLiteral r
          else strUnsignedDecimalLiteral (c # r))"

text \<open>\<^verbatim>\<open>str.replace(',', '.')\<close>: only the first comma is replaced.\<close>

fun replaceComma :: "jsstring \<Rightarrow> jsstring" where
  "replaceComma [] = []"
| "replaceComma (c # cs) = (if c = COMMA then 46 # cs else c # replaceComma cs)"

section \<open>parseCSVData\<close>

record pueblo =
  nombre :: jsstring
  latitud :: jsnumber
  longitud :: jsnumber
  seguridad :: jsstring
  securityTips :: jsstring
  distancia :: jsstring
  ruta :: jsstring
  linkTurismo :: jsstring

text \<open>
  \<^verbatim>\<open>index >= 0 && index < row.length ? row[index].trim() : ''\<close>; the indices are the
  constants 1 to 8 of the source.
\<close>

definition column :: "jsstring list \<Rightarrow> nat \<Rightarrow> jsstring" where
  "column row index = (if index < length row then trim (row ! index) else [])"

text \<open>\<^verbatim>\<open>value || fallback\<close> on strings: the empty string is falsy.\<close>

definition orDefault :: "jsstring \<Rightarrow> jsstring \<Rightarrow> jsstring" where
  "orDefault v fallback = (if v \<noteq> [] then v else fallback)"

text \<open>
  The body of the loop over the data rows: \<open>None\<close> is \<^verbatim>\<open>continue\<close>, \<open>Some record\<close>
  is \<^verbatim>\<open>data.push(record)\<close>. Nothing in the body can throw (every element of a row is
  a string), so the \<^verbatim>\<open>catch\<close> is never entered.
\<close>

definition processRow :: "jsstring list \<Rightarrow> pueblo option" where
  "processRow row =
     (let nombre = column row 1;
          latitudStr = column row 2;
          longitudStr = column row 3;
          seguridad = column row 4;
          distancia = column row 5;
          ruta = column row 6;
          linkTurismo = column row 7;
          securityTips = column row 8
      in if nombre = [] \<or> latitudStr = [] \<or> longitudStr = [] then None
         else
           let latitud = parseFloat (replaceComma latitudStr);
               longitud = parseFloat (replaceComma longitudStr)
           in if isNaN latitud \<or> isNaN longitud then None
              else Some \<lparr>nombre = nombre, latitud = latitud, longitud = longitud,
                     seguridad = orDefault seguridad (js ''Informaci'' @ [243] @ js ''n no disponible''),
                     securityTips = orDefault securityTips (js ''Information not available''),
                     distancia = orDefault distancia (js ''N/A''),
                     ruta = orDefault ruta (js ''#''),
                     linkTurismo = orDefault linkTurismo (js ''#'')\<rparr>)"

fun processRows :: "jsstring list list \<Rightarrow> pueblo list \<Rightarrow> pueblo list" where
  "processRows [] data = data"
| "processRows (row # rest) data =
     (case processRow row of
        None \<Rightarrow> processRows rest data
      | Some record \<Rightarrow> processRows rest (data @ [record]))"

text \<open>
  What \<^verbatim>\<open>parseCSVData\<close> does with the rows of \<^verbatim>\<open>parseCSVText\<close>: row 0 is the header,
  the loop starts at row 1.
\<close>

definition normalizeRows :: "jsstring list list \<Rightarrow> pueblo list" where
  "normalizeRows rows = (if length rows < 2 then [] else processRows (tl rows) [])"

definition parseCSVData :: "jsstring \<Rightarrow> pueblo list" where
  "parseCSVData csvText = normalizeRows (parseCSVText csvText)"

text \<open>The second copy (lines 698 to 776) calls the second copy of \<^verbatim>\<open>parseCSVText\<close>.\<close>

definition parseCSVData_v2 :: "jsstring \<Rightarrow> pueblo list" where
  "parseCSVData_v2 csvText = normalizeRows (parseCSVText_v2 csvText)"

section \<open>The fingerprint\<close>

text \<open>
  ToInt32 of a number that is an integer. The operands below stay under \<open>2^33\<close> in
  magnitude, far inside the range where a double holds every integer exactly, so the
  subtraction and the addition of the source are those of the integers.
\<close>

definition toInt32 :: "int \<Rightarrow> int" where
  "toInt32 x = (x + 2 ^ 31) mod 2 ^ 32 - 2 ^ 31"

text \<open>
  The callback of \<^verbatim>\<open>reduce\<close>: \<^verbatim>\<open>a << 5\<close> is ToInt32 of the shifted ToInt32 of \<open>a\<close>,
  \<^verbatim>\<open>a & a\<close> is ToInt32 of \<open>a\<close>; \<open>b\<close> is \<^verbatim>\<open>b.charCodeAt(0)\<close>.
\<close>

definition hashStep :: "int \<Rightarrow> jschar \<Rightarrow> int" where
  "hashStep a b = toInt32 ((toInt32 (toInt32 a * 2 ^ 5) - a) + int b)"

text \<open>\<^verbatim>\<open>s.split('').reduce(..., 0)\<close>: one step for each code unit, from the left.\<close>

definition hashString :: "jsstring \<Rightarrow> int" where
  "hashString s = foldl hashStep 0 s"

section \<open>The snapshot object\<close>

text \<open>
  \<^verbatim>\<open>turismoDatos\<close> is an ordinary object created by \<^verbatim>\<open>{}\<close>: its own properties, and
  its prototype, \<open>None\<close> for \<^verbatim>\<open>Object.prototype\<close>. An assignment \<^verbatim>\<open>obj[key] = value\<close>
  creates or overwrites an own property, except for the key \<^verbatim>\<open>__proto__\<close>, where the
  setter inherited from \<^verbatim>\<open>Object.prototype\<close> runs and makes an object value the
  prototype. \<^verbatim>\<open>Object.keys\<close> and \<^verbatim>\<open>Object.values\<close> list the own properties.
\<close>

record jsobject =
  proto :: "pueblo option"
  own :: "jsstring \<rightharpoonup> pueblo"

definition emptyObject :: jsobject where
  "emptyObject = \<lparr>proto = None, own = Map.empty\<rparr>"

definition setProperty :: "jsobject \<Rightarrow> jsstring \<Rightarrow> pueblo \<Rightarrow> jsobject" where
  "setProperty obj key v =
     (if key = js ''__proto__'' then obj\<lparr>proto := Some v\<rparr>
      else obj\<lparr>own := (own obj)(key \<mapsto> v)\<rparr>)"

definition keys :: "jsobject \<Rightarrow> jsstring set" where
  "keys obj = dom (own obj)"

text \<open>
  \<^verbatim>\<open>turismoDatos = {}; newData.forEach(pueblo => { turismoDatos[pueblo.nombre] = pueblo; })\<close>
\<close>

definition buildSnapshot :: "pueblo list \<Rightarrow> jsobject" where
  "buildSnapshot newData = foldl (\<lambda>obj pueblo. setProperty obj (nombre pueblo) pueblo) emptyObject newData"

section \<open>updateData\<close>

text \<open>The four calls of \<^verbatim>\<open>updateStatus\<close>, named by their text.\<close>

datatype status = Actualizando_datos | Datos_actualizados | Sin_cambios | Error_de_conexion

text \<open>
  The state that \<^verbatim>\<open>updateData\<close> reads and writes: the global \<^verbatim>\<open>turismoDatos\<close> (the
  object and its identity: the number of object literals evaluated for it so far), the
  fields \<^verbatim>\<open>lastDataHash\<close> (\<open>None\<close> is \<^verbatim>\<open>null\<close>) and \<^verbatim>\<open>isUpdating\<close>, and the effects
  on the collaborators: the statuses reported, the number of calls of
  \<^verbatim>\<open>updatePueblosMagicosMarkers\<close> and the number of calls of \<^verbatim>\<open>fetch\<close>.
\<close>

record manager =
  turismoDatos :: jsobject
  turismoDatos_id :: nat
  lastDataHash :: "int option"
  isUpdating :: bool
  statusLog :: "status list"
  markerUpdates :: nat
  fetchCalls :: nat

definition initialManager :: manager where
  "initialManager =
     \<lparr>turismoDatos = emptyObject, turismoDatos_id = 0, lastDataHash = None,
      isUpdating = False, statusLog = [], markerUpdates = 0, fetchCalls = 0\<rparr>"

text \<open>
  How the request of one cycle ends: \<^verbatim>\<open>fetch\<close> rejects, or it resolves to a response
  with its \<^verbatim>\<open>ok\<close> flag and the outcome of \<^verbatim>\<open>response.text()\<close> (\<open>None\<close> when reading
  the body rejects).
\<close>

datatype fetch_outcome = NetworkError | Responded bool "jsstring option"

datatype jserror = FetchRejected | HttpError | BodyRejected

definition fetchDataFromGoogleSheets :: "fetch_outcome \<Rightarrow> jserror + pueblo list" where
  "fetchDataFromGoogleSheets outcome =
     (case outcome of
        NetworkError \<Rightarrow> Inl FetchRejected
      | Responded ok body \<Rightarrow>
          if \<not> ok then Inl HttpError
          else (case body of None \<Rightarrow> Inl BodyRejected
                | Some csvText \<Rightarrow> Inr (parseCSVData csvText)))"

text \<open>
  \<^verbatim>\<open>updateData\<close> up to the \<^verbatim>\<open>await\<close>: the guard on \<^verbatim>\<open>isUpdating\<close>, the flag, the status
  of a manual cycle, and the call of \<^verbatim>\<open>fetch\<close>.
\<close>

definition updateData_begin :: "bool \<Rightarrow> manager \<Rightarrow> manager" where
  "updateData_begin manual s =
     (if isUpdating s then s
      else s\<lparr>isUpdating := True,
             statusLog := (if manual then statusLog s @ [Actualizando_datos] else statusLog s),
             fetchCalls := Suc (fetchCalls s)\<rparr>)"

text \<open>
  \<^verbatim>\<open>updateData\<close> from the \<^verbatim>\<open>await\<close> on, when the request has ended with \<open>outcome\<close>.
  \<^verbatim>\<open>JSON.stringify\<close> is the parameter \<open>stringify\<close>. \<^verbatim>\<open>newHash !== this.lastDataHash\<close>
  compares a number with \<^verbatim>\<open>null\<close> or a number. \<^verbatim>\<open>updatePueblosMagicosMarkers\<close> is a
  function declared in the same file, so the \<^verbatim>\<open>typeof\<close> test before its call holds. The
  collaborators \<^verbatim>\<open>updateStatus\<close> and \<^verbatim>\<open>updatePueblosMagicosMarkers\<close> are taken to
  return; the last line of the function, after the \<^verbatim>\<open>try\<close>, clears the flag.
\<close>

definition updateData_resume ::
  "(pueblo list \<Rightarrow> jsstring) \<Rightarrow> bool \<Rightarrow> fetch_outcome \<Rightarrow> manager \<Rightarrow> manager" where
  "updateData_resume stringify manual outcome s =
     (case fetchDataFromGoogleSheets outcome of
        Inr newData \<Rightarrow>
          let newHash = hashString (stringify newData) in
          if Some newHash \<noteq> lastDataHash s \<or> manual then
            s\<lparr>turismoDatos := buildSnapshot newData,
              turismoDatos_id := Suc (turismoDatos_id s),
              lastDataHash := Some newHash,
              markerUpdates := Suc (markerUpdates s),
              statusLog := statusLog s @ [Datos_actualizados]\<rparr>
          else s\<lparr>statusLog := statusLog s @ [Sin_cambios]\<rparr>
      | Inl error \<Rightarrow> s\<lparr>statusLog := statusLog s @ [Error_de_conexion]\<rparr>)
     \<lparr>isUpdating := False\<rparr>"

text \<open>One whole cycle, with no other call of \<^verbatim>\<open>updateData\<close> during the request.\<close>

definition updateData ::
  "(pueblo list \<Rightarrow> jsstring) \<Rightarrow> bool \<Rightarrow> fetch_outcome \<Rightarrow> manager \<Rightarrow> manager" where
  "updateData stringify manual outcome s =
     (if isUpdating s then s
      else updateData_resume stringify manual outcome (updateData_begin manual s))"

text \<open>
  The calls of \<^verbatim>\<open>updateData\<close> as the event loop interleaves them: the timer and the
  button call it (\<open>Trigger manual\<close>) at any moment, also while a request is pending, and
  a pending request ends (\<open>Settle outcome\<close>) and its cycle runs to its end. \<open>pending\<close>
  holds the \<^verbatim>\<open>manual\<close> argument of every cycle that is suspended at its \<^verbatim>\<open>await\<close>.
\<close>

datatype event = Trigger bool | Settle fetch_outcome

record system =
  mgr :: manager
  pending :: "bool list"

definition initialSystem :: system where
  "initialSystem = \<lparr>mgr = initialManager, pending = []\<rparr>"

fun step :: "(pueblo list \<Rightarrow> jsstring) \<Rightarrow> system \<Rightarrow> event \<Rightarrow> system" where
  "step stringify sys (Trigger manual) =
     \<lparr>mgr = updateData_begin manual (mgr sys),
      pending = (if isUpdating (mgr sys) then pending sys else pending sys @ [manual])\<rparr>"
| "step stringify sys (Settle outcome) =
     (case pending sys of
        [] \<Rightarrow> sys
      | manual # others \<Rightarrow>
          \<lparr>mgr = updateData_resume stringify manual outcome (mgr sys), pending = others\<rparr>)"

definition run :: "(pueblo list \<Rightarrow> jsstring) \<Rightarrow> event list \<Rightarrow> system" where
  "run stringify events = foldl (step stringify) initialSystem events"

section \<open>The standard escaping of a field\<close>

text \<open>
  The encoding that the round-trip property of the specification speaks of, written from
  its words (it is not code of the repository): a field is wrapped in quote characters
  and each quote inside it is doubled; the fields of a row are joined by commas, and each
  row is ended by a line feed.
\<close>

definition doubleQuotes :: "jsstring \<Rightarrow> jsstring" where
  "doubleQuotes v = concat (map (\<lambda>c. if c = QUOTE then [QUOTE, QUOTE] else [c]) v)"

definition quoteField :: "jsstring \<Rightarrow> jsstring" where
  "quoteField v = QUOTE # doubleQuotes v @ [QUOTE]"

fun encodeRow :: "jsstring list \<Rightarrow> jsstring" where
  "encodeRow [] = []"
| "encodeRow [v] = quoteField v"
| "encodeRow (v # w # vs) = quoteField v @ COMMA # encodeRow (w # vs)"

definition encodeCSV :: "jsstring list list \<Rightarrow> jsstring" where
  "encodeCSV rs = concat (map (\<lambda>r. encodeRow r @ [LF]) rs)"

section \<open>The fingerprint is a 32-bit integer\<close>

lemma toInt32_range: "- (2 ^ 31) \<le> toInt32 x \<and> toInt32 x < 2 ^ 31"
  unfolding toInt32_def
  using pos_mod_bound [of "2 ^ 32" "x + 2 ^ 31"] pos_mod_sign [of "2 ^ 32" "x + 2 ^ 31"]
  by simp

lemma hashString_snoc: "hashString (s @ [b]) = hashStep (hashString s) b"
  by (simp add: hashString_def)

text \<open>
  C10. The fingerprint of every string, so of the serialisation of every fetched
  dataset, lies between \<open>-2^31\<close> and \<open>2^31 - 1\<close>: the last thing each step of the
  rolling hash does is ToInt32. \<^verbatim>\<open>lastDataHash\<close> after a cycle is therefore what it was
  before or such an integer, and \<^verbatim>\<open>!==\<close> compares integers (or \<^verbatim>\<open>null\<close>).
\<close>

theorem fingerprint_is_int32:
  "- (2 ^ 31) \<le> hashString s \<and> hashString s \<le> 2 ^ 31 - 1
   \<and> (lastDataHash (updateData_resume stringify manual outcome st) = lastDataHash st
      \<or> (\<exists>h. lastDataHash (updateData_resume stringify manual outcome st) = Some h
            \<and> - (2 ^ 31) \<le> h \<and> h \<le> 2 ^ 31 - 1))"
proof -
  have range: "- (2 ^ 31) \<le> hashString t \<and> hashString t \<le> 2 ^ 31 - 1" for t
  proof (cases t rule: rev_cases)
    case Nil
    then show ?thesis by (simp add: hashString_def)
  next
    case (snoc u b)
    then show ?thesis
      using toInt32_range [of "(toInt32 (toInt32 (hashString u) * 2 ^ 5) - hashString u) + int b"]
      by (simp add: hashString_snoc hashStep_def)
  qed
  have "lastDataHash (updateData_resume stringify manual outcome st) = lastDataHash st
      \<or> (\<exists>h. lastDataHash (updateData_resume stringify manual outcome st) = Some h
            \<and> - (2 ^ 31) \<le> h \<and> h \<le> 2 ^ 31 - 1)"
    using range
    by (auto simp: updateData_resume_def Let_def split: sum.splits)
  with range show ?thesis by blast
qed

theorem fingerprint_is_int32_witness:
  "hashString (js ''turismo'') = - 965621283
   \<and> - (2 ^ 31) \<le> hashString (js ''turismo'') \<and> hashString (js ''turismo'') \<le> 2 ^ 31 - 1
   \<and> (lastDataHash (updateData_resume (\<lambda>data. js ''turismo'') False
          (Responded True (Some [])) initialManager) = lastDataHash initialManager
      \<or> (\<exists>h. lastDataHash (updateData_resume (\<lambda>data. js ''turismo'') False
                 (Responded True (Some [])) initialManager) = Some h
            \<and> - (2 ^ 31) \<le> h \<and> h \<le> 2 ^ 31 - 1))"
proof -
  have "hashString (js ''turismo'') = - 965621283"
    by (simp add: hashString_def hashStep_def toInt32_def js_def)
  then show ?thesis
    using fingerprint_is_int32 [of "js ''turismo''" "\<lambda>data. js ''turismo''" False
        "Responded True (Some [])" initialManager]
    by simp
qed

section \<open>Evaluating the parser on a text\<close>

lemmas eval_defs = parseCSVData_def parseCSVText_def normalizeRows_def processRow_def column_def
  js_def nextChar_def pushRow_def trim_def trimStart_def isWhiteSpace_def parseFloat_def
  strUnsignedDecimalLiteral_def exponentPart_def scale10_def roundMV_def isDigit_def digitsValue_def
  isNaN_def orDefault_def Let_def

section \<open>The example of the specification\<close>

text \<open>
  C7, as stated. The text \<^verbatim>\<open>"Name,Lat,Lon\nAjijic,20.3,-103.25\n"\<close> has three columns, and
  \<^verbatim>\<open>parseCSVData\<close> reads the name from column 1, the latitude from column 2 and the
  longitude from column 3: the longitude is missing and the row is skipped. There is no
  record, where the claim has exactly one.
\<close>

theorem parseCSVData_three_columns_counterexample:
  "parseCSVData (js ''Name,Lat,Lon'' @ [LF] @ js ''Ajijic,20.3,-103.25'' @ [LF]) = []
   \<and> length (parseCSVData (js ''Name,Lat,Lon'' @ [LF] @ js ''Ajijic,20.3,-103.25'' @ [LF])) \<noteq> 1"
  by (simp add: eval_defs)

text \<open>
  C7, amended. With the columns where the code reads them (name 1, latitude 2,
  longitude 3, after a leading column 0), the text
  \<^verbatim>\<open>"Id,Name,Lat,Lon\n1,Ajijic,20.3,-103.25\n"\<close> gives exactly one record: name Ajijic,
  latitude 20.3, longitude -103.25, distance N/A, both links \<^verbatim>\<open>#\<close>, and the two
  advisory texts at their defaults.
\<close>

theorem parseCSVData_example:
  "parseCSVData (js ''Id,Name,Lat,Lon'' @ [LF] @ js ''1,Ajijic,20.3,-103.25'' @ [LF]) =
     [\<lparr>nombre = js ''Ajijic'', latitud = Finite (203 / 10), longitud = Finite (- (10325 / 100)),
       seguridad = js ''Informaci'' @ [243] @ js ''n no disponible'',
       securityTips = js ''Information not available'',
       distancia = js ''N/A'', ruta = js ''#'', linkTurismo = js ''#''\<rparr>]"
  by (simp add: eval_defs)

section \<open>What the snapshot holds\<close>

lemma buildSnapshot_snoc:
  "buildSnapshot (data @ [p]) = setProperty (buildSnapshot data) (nombre p) p"
  by (simp add: buildSnapshot_def)

lemma buildSnapshot_own:
  "own (buildSnapshot data) name =
     (if name = js ''__proto__'' then None
      else case filter (\<lambda>p. nombre p = name) data of [] \<Rightarrow> None | p # ps \<Rightarrow> Some (last (p # ps)))"
proof (induction data rule: rev_induct)
  case Nil
  then show ?case by (simp add: buildSnapshot_def emptyObject_def)
next
  case (snoc p data)
  then show ?case
    by (auto simp: buildSnapshot_snoc setProperty_def split: list.splits)
qed

lemma buildSnapshot_proto:
  "proto (buildSnapshot data) =
     (case filter (\<lambda>p. nombre p = js ''__proto__'') data of
        [] \<Rightarrow> None | p # ps \<Rightarrow> Some (last (p # ps)))"
proof (induction data rule: rev_induct)
  case Nil
  then show ?case by (simp add: buildSnapshot_def emptyObject_def)
next
  case (snoc p data)
  then show ?case
    by (auto simp: buildSnapshot_snoc setProperty_def split: list.splits)
qed

section \<open>The synchronisation cycle\<close>

lemma updateData_releases_flag:
  "\<not> isUpdating s \<Longrightarrow> \<not> isUpdating (updateData stringify manual outcome s)"
  by (simp add: updateData_def updateData_resume_def)

text \<open>
  C1. A cycle that \<^verbatim>\<open>updateData\<close> runs (the flag was clear) and whose request succeeds
  with the text \<open>csvText\<close>. If the fingerprint of the new data equals \<^verbatim>\<open>lastDataHash\<close>
  and the cycle is not manual, the status is \<^verbatim>\<open>Sin cambios\<close> and the snapshot (the
  same object), the fingerprint and the markers are untouched. If the fingerprints
  differ or the cycle is manual, \<^verbatim>\<open>turismoDatos\<close> is a new object built from the new
  data: under every name other than \<^verbatim>\<open>__proto__\<close> it holds the last record of the new
  data with that name, and nothing under a name that no record has; its keys are the
  names of the new data (but \<^verbatim>\<open>__proto__\<close>, whose last record is the prototype);
  \<^verbatim>\<open>lastDataHash\<close> is the new fingerprint, the status is \<^verbatim>\<open>Datos actualizados\<close> and
  \<^verbatim>\<open>updatePueblosMagicosMarkers\<close> has been called once. In both cases the statuses
  reported are those of the cycle and no other, one request was issued, and the flag is
  clear at the end.
\<close>

theorem updateData_cycle:
  assumes "\<not> isUpdating s"
  shows
    "(let newData = parseCSVData csvText;
          newHash = hashString (stringify newData);
          s' = updateData stringify manual (Responded True (Some csvText)) s
      in (Some newHash = lastDataHash s \<and> \<not> manual \<longrightarrow>
            last (statusLog s') = Sin_cambios \<and> turismoDatos s' = turismoDatos s
            \<and> turismoDatos_id s' = turismoDatos_id s \<and> lastDataHash s' = lastDataHash s
            \<and> markerUpdates s' = markerUpdates s)
         \<and> (Some newHash \<noteq> lastDataHash s \<or> manual \<longrightarrow>
            last (statusLog s') = Datos_actualizados \<and> turismoDatos s' = buildSnapshot newData
            \<and> turismoDatos_id s' \<noteq> turismoDatos_id s \<and> lastDataHash s' = Some newHash
            \<and> markerUpdates s' = markerUpdates s + 1
            \<and> (\<forall>name. own (turismoDatos s') name =
                  (if name = js ''__proto__'' then None
                   else case filter (\<lambda>p. nombre p = name) newData of
                          [] \<Rightarrow> None | p # ps \<Rightarrow> Some (last (p # ps))))
            \<and> proto (turismoDatos s') =
                  (case filter (\<lambda>p. nombre p = js ''__proto__'') newData of
                     [] \<Rightarrow> None | p # ps \<Rightarrow> Some (last (p # ps)))
            \<and> keys (turismoDatos s') = nombre ` set newData - {js ''__proto__''})
         \<and> statusLog s' =
              statusLog s @ (if manual then [Actualizando_datos] else [])
                @ (if Some newHash \<noteq> lastDataHash s \<or> manual then [Datos_actualizados]
                   else [Sin_cambios])
         \<and> \<not> isUpdating s' \<and> fetchCalls s' = fetchCalls s + 1)"
proof -
  have k: "keys (buildSnapshot data) = nombre ` set data - {js ''__proto__''}" for data
  proof (rule set_eqI)
    fix n
    have "filter (\<lambda>p. nombre p = n) data = [] \<longleftrightarrow> n \<notin> nombre ` set data"
      by (auto simp: filter_empty_conv)
    then show "n \<in> keys (buildSnapshot data) \<longleftrightarrow> n \<in> nombre ` set data - {js ''__proto__''}"
      by (auto simp: keys_def dom_def buildSnapshot_own split: list.splits)
  qed
  show ?thesis
    using assms
    by (simp add: updateData_def updateData_begin_def updateData_resume_def
        fetchDataFromGoogleSheets_def Let_def buildSnapshot_own buildSnapshot_proto k)
qed

text \<open>
  Three cycles on the same text, from the initial state: the first publishes, the second
  (periodic) reports no change and keeps the object, the third (manual) publishes again.
\<close>

theorem updateData_cycle_witness:
  "(let stringify = (\<lambda>data. concat (map nombre data));
        csvText = js ''Id,Name,Lat,Lon'' @ [LF] @ js ''1,Ajijic,20.3,-103.25'' @ [LF];
        s1 = updateData stringify False (Responded True (Some csvText)) initialManager;
        s2 = updateData stringify False (Responded True (Some csvText)) s1;
        s3 = updateData stringify True (Responded True (Some csvText)) s2
    in \<not> isUpdating initialManager
       \<and> last (statusLog s1) = Datos_actualizados
       \<and> lastDataHash s1 = Some (hashString (js ''Ajijic'')) \<and> markerUpdates s1 = 1
       \<and> turismoDatos s1 = buildSnapshot (parseCSVData csvText)
       \<and> own (turismoDatos s1) (js ''Ajijic'') =
             Some \<lparr>nombre = js ''Ajijic'', latitud = Finite (203 / 10),
                   longitud = Finite (- (10325 / 100)),
                   seguridad = js ''Informaci'' @ [243] @ js ''n no disponible'',
                   securityTips = js ''Information not available'',
                   distancia = js ''N/A'', ruta = js ''#'', linkTurismo = js ''#''\<rparr>
       \<and> own (turismoDatos s1) (js ''Tequila'') = None
       \<and> keys (turismoDatos s1) = {js ''Ajijic''}
       \<and> proto (turismoDatos s1) = None
       \<and> statusLog s1 = [Datos_actualizados]
       \<and> turismoDatos_id s1 \<noteq> turismoDatos_id initialManager
       \<and> \<not> isUpdating s1
       \<and> last (statusLog s2) = Sin_cambios \<and> turismoDatos s2 = turismoDatos s1
       \<and> turismoDatos_id s2 = turismoDatos_id s1 \<and> markerUpdates s2 = 1
       \<and> statusLog s2 = [Datos_actualizados, Sin_cambios]
       \<and> \<not> isUpdating s2
       \<and> last (statusLog s3) = Datos_actualizados \<and> turismoDatos_id s3 \<noteq> turismoDatos_id s2
       \<and> markerUpdates s3 = 2
       \<and> statusLog s3 = [Datos_actualizados, Sin_cambios, Actualizando_datos, Datos_actualizados]
       \<and> keys (turismoDatos s3) = {js ''Ajijic''}
       \<and> fetchCalls s3 = 3)"
proof -
  define stringify :: "pueblo list \<Rightarrow> jsstring" where "stringify = (\<lambda>data. concat (map nombre data))"
  define csvText where "csvText = js ''Id,Name,Lat,Lon'' @ [LF] @ js ''1,Ajijic,20.3,-103.25'' @ [LF]"
  define s1 where "s1 = updateData stringify False (Responded True (Some csvText)) initialManager"
  define s2 where "s2 = updateData stringify False (Responded True (Some csvText)) s1"
  define s3 where "s3 = updateData stringify True (Responded True (Some csvText)) s2"
  define ajijic where "ajijic =
    \<lparr>nombre = js ''Ajijic'', latitud = Finite (203 / 10), longitud = Finite (- (10325 / 100)),
      seguridad = js ''Informaci'' @ [243] @ js ''n no disponible'',
      securityTips = js ''Information not available'',
      distancia = js ''N/A'', ruta = js ''#'', linkTurismo = js ''#''\<rparr>"
  have parsed: "parseCSVData csvText = [ajijic]"
    by (simp add: eval_defs csvText_def ajijic_def)
  have name: "nombre ajijic = js ''Ajijic''"
    by (simp add: ajijic_def)
  have data: "stringify (parseCSVData csvText) = js ''Ajijic''"
    by (simp add: parsed stringify_def name)
  have neq: "js ''Ajijic'' \<noteq> js ''__proto__''" "js ''Tequila'' \<noteq> js ''__proto__''"
    "js ''Ajijic'' \<noteq> js ''Tequila''"
    by (simp_all add: js_def)
  have i0: "\<not> isUpdating initialManager" and h0: "lastDataHash initialManager = None"
    and m0: "markerUpdates initialManager = 0" and l0: "statusLog initialManager = []"
    and f0: "fetchCalls initialManager = 0"
    by (simp_all add: initialManager_def)
  note t1 = updateData_cycle [OF i0, of csvText stringify False, unfolded Let_def,
      folded s1_def, unfolded data]
  have b1: "last (statusLog s1) = Datos_actualizados
       \<and> lastDataHash s1 = Some (hashString (js ''Ajijic'')) \<and> markerUpdates s1 = 1
       \<and> turismoDatos s1 = buildSnapshot (parseCSVData csvText)
       \<and> statusLog s1 = [Datos_actualizados]
       \<and> turismoDatos_id s1 \<noteq> turismoDatos_id initialManager
       \<and> \<not> isUpdating s1 \<and> fetchCalls s1 = 1"
    using t1 by (simp add: h0 m0 l0 f0)
  have changed1: "Some (hashString (js ''Ajijic'')) \<noteq> lastDataHash initialManager \<or> False"
    by (simp add: h0)
  have o1: "\<forall>name. own (turismoDatos s1) name =
                  (if name = js ''__proto__'' then None
                   else case filter (\<lambda>p. nombre p = name) (parseCSVData csvText) of
                          [] \<Rightarrow> None | p # ps \<Rightarrow> Some (last (p # ps)))"
    and p1: "proto (turismoDatos s1) =
                  (case filter (\<lambda>p. nombre p = js ''__proto__'') (parseCSVData csvText) of
                     [] \<Rightarrow> None | p # ps \<Rightarrow> Some (last (p # ps)))"
    and k1: "keys (turismoDatos s1) = nombre ` set (parseCSVData csvText) - {js ''__proto__''}"
    using t1 changed1 by blast+
  have "own (turismoDatos s1) (js ''Ajijic'') = Some ajijic"
    using o1 [rule_format, of "js ''Ajijic''"] neq by (simp add: parsed name)
  moreover have "own (turismoDatos s1) (js ''Tequila'') = None"
    using o1 [rule_format, of "js ''Tequila''"] neq by (simp add: parsed name)
  moreover have "keys (turismoDatos s1) = {js ''Ajijic''}"
    using k1 neq by (simp add: parsed name)
  moreover have "proto (turismoDatos s1) = None"
    using p1 neq by (simp add: parsed name)
  ultimately have c1: "last (statusLog s1) = Datos_actualizados
       \<and> lastDataHash s1 = Some (hashString (js ''Ajijic'')) \<and> markerUpdates s1 = 1
       \<and> turismoDatos s1 = buildSnapshot (parseCSVData csvText)
       \<and> own (turismoDatos s1) (js ''Ajijic'') = Some ajijic
       \<and> own (turismoDatos s1) (js ''Tequila'') = None
       \<and> keys (turismoDatos s1) = {js ''Ajijic''}
       \<and> proto (turismoDatos s1) = None
       \<and> statusLog s1 = [Datos_actualizados]
       \<and> turismoDatos_id s1 \<noteq> turismoDatos_id initialManager
       \<and> \<not> isUpdating s1 \<and> fetchCalls s1 = 1"
    using b1 by blast
  then have i1: "\<not> isUpdating s1"
    by simp
  have c2: "last (statusLog s2) = Sin_cambios \<and> turismoDatos s2 = turismoDatos s1
       \<and> turismoDatos_id s2 = turismoDatos_id s1 \<and> markerUpdates s2 = 1
       \<and> statusLog s2 = [Datos_actualizados, Sin_cambios]
       \<and> \<not> isUpdating s2 \<and> fetchCalls s2 = 2"
    using updateData_cycle [OF i1, of csvText stringify False]
    by (simp add: Let_def s2_def [symmetric] data c1)
  then have i2: "\<not> isUpdating s2"
    by simp
  note t3 = updateData_cycle [OF i2, of csvText stringify True, unfolded Let_def,
      folded s3_def, unfolded data]
  have b3: "last (statusLog s3) = Datos_actualizados \<and> turismoDatos_id s3 \<noteq> turismoDatos_id s2
       \<and> markerUpdates s3 = 2
       \<and> statusLog s3 = [Datos_actualizados, Sin_cambios, Actualizando_datos, Datos_actualizados]
       \<and> fetchCalls s3 = 3"
    using t3 by (simp add: c2)
  have k3: "keys (turismoDatos s3) = nombre ` set (parseCSVData csvText) - {js ''__proto__''}"
    using t3 by blast
  have "keys (turismoDatos s3) = {js ''Ajijic''}"
    using k3 neq by (simp add: parsed name)
  with b3 have c3: "last (statusLog s3) = Datos_actualizados \<and> turismoDatos_id s3 \<noteq> turismoDatos_id s2
       \<and> markerUpdates s3 = 2
       \<and> statusLog s3 = [Datos_actualizados, Sin_cambios, Actualizando_datos, Datos_actualizados]
       \<and> keys (turismoDatos s3) = {js ''Ajijic''}
       \<and> fetchCalls s3 = 3"
    by blast
  show ?thesis
    using i0 c1 c2 c3
    unfolding Let_def stringify_def [symmetric] csvText_def [symmetric] s1_def [symmetric]
      s2_def [symmetric] s3_def [symmetric] ajijic_def [symmetric]
    by blast
qed

text \<open>
  C3. A cycle whose request fails (\<^verbatim>\<open>fetch\<close> rejects, the response is not \<^verbatim>\<open>ok\<close>, or
  reading its body rejects) leaves the snapshot, its identity, \<^verbatim>\<open>lastDataHash\<close> and the
  markers as they were, reports \<^verbatim>\<open>Error de conexion\<close>, and ends with the flag clear:
  the next call of the timer or the button issues a new request.
\<close>

theorem updateData_fetch_failure:
  assumes "\<not> isUpdating s"
    and "outcome = NetworkError \<or> (\<exists>body. outcome = Responded False body)
         \<or> outcome = Responded True None"
  shows
    "(let s' = updateData stringify manual outcome s
      in turismoDatos s' = turismoDatos s \<and> turismoDatos_id s' = turismoDatos_id s
         \<and> lastDataHash s' = lastDataHash s \<and> markerUpdates s' = markerUpdates s
         \<and> last (statusLog s') = Error_de_conexion
         \<and> \<not> isUpdating s'
         \<and> fetchCalls (updateData_begin nextManual s') = Suc (fetchCalls s'))"
  using assms
  by (auto simp: updateData_def updateData_begin_def updateData_resume_def
      fetchDataFromGoogleSheets_def Let_def)

text \<open>
  A successful cycle, then a response that is not \<^verbatim>\<open>ok\<close>, then a request that is
  rejected: the snapshot of the first cycle stays.
\<close>

theorem updateData_fetch_failure_witness:
  "(let stringify = (\<lambda>data. concat (map nombre data));
        csvText = js ''Id,Name,Lat,Lon'' @ [LF] @ js ''1,Ajijic,20.3,-103.25'' @ [LF];
        s1 = updateData stringify False (Responded True (Some csvText)) initialManager;
        s2 = updateData stringify False (Responded False (Some (js ''Not Found''))) s1;
        s3 = updateData stringify True NetworkError s2
    in \<not> isUpdating s1
       \<and> turismoDatos s2 = buildSnapshot (parseCSVData csvText)
       \<and> turismoDatos_id s2 = turismoDatos_id s1
       \<and> lastDataHash s2 = lastDataHash s1 \<and> markerUpdates s2 = markerUpdates s1
       \<and> last (statusLog s2) = Error_de_conexion \<and> \<not> isUpdating s2
       \<and> fetchCalls (updateData_begin False s2) = Suc (fetchCalls s2)
       \<and> turismoDatos s3 = buildSnapshot (parseCSVData csvText)
       \<and> lastDataHash s3 = lastDataHash s1
       \<and> last (statusLog s3) = Error_de_conexion \<and> \<not> isUpdating s3)"
proof -
  define stringify :: "pueblo list \<Rightarrow> jsstring" where "stringify = (\<lambda>data. concat (map nombre data))"
  define csvText where "csvText = js ''Id,Name,Lat,Lon'' @ [LF] @ js ''1,Ajijic,20.3,-103.25'' @ [LF]"
  define s1 where "s1 = updateData stringify False (Responded True (Some csvText)) initialManager"
  define s2 where "s2 = updateData stringify False (Responded False (Some (js ''Not Found''))) s1"
  define s3 where "s3 = updateData stringify True NetworkError s2"
  have i0: "\<not> isUpdating initialManager"
    by (simp add: initialManager_def)
  have i1: "\<not> isUpdating s1"
    unfolding s1_def by (rule updateData_releases_flag [OF i0])
  have d1: "turismoDatos s1 = buildSnapshot (parseCSVData csvText)"
    by (simp add: s1_def updateData_def updateData_begin_def updateData_resume_def
        fetchDataFromGoogleSheets_def Let_def initialManager_def)
  have c2: "turismoDatos s2 = turismoDatos s1 \<and> turismoDatos_id s2 = turismoDatos_id s1
       \<and> lastDataHash s2 = lastDataHash s1 \<and> markerUpdates s2 = markerUpdates s1
       \<and> last (statusLog s2) = Error_de_conexion \<and> \<not> isUpdating s2
       \<and> fetchCalls (updateData_begin False s2) = Suc (fetchCalls s2)"
    using updateData_fetch_failure [OF i1, of "Responded False (Some (js ''Not Found''))"
        stringify False False]
    by (simp add: Let_def s2_def [symmetric])
  then have i2: "\<not> isUpdating s2"
    by simp
  have c3: "turismoDatos s3 = turismoDatos s2 \<and> lastDataHash s3 = lastDataHash s2
       \<and> last (statusLog s3) = Error_de_conexion \<and> \<not> isUpdating s3"
    using updateData_fetch_failure [OF i2, of NetworkError stringify True False]
    by (simp add: Let_def s3_def [symmetric])
  show ?thesis
    using i1 d1 c2 c3
    unfolding Let_def stringify_def [symmetric] csvText_def [symmetric] s1_def [symmetric]
      s2_def [symmetric] s3_def [symmetric]
    by simp
qed

section \<open>Calls while a cycle is in flight\<close>

lemma run_snoc: "run stringify (events @ [e]) = step stringify (run stringify events) e"
  by (simp add: run_def)

lemma isUpdating_begin: "isUpdating (updateData_begin manual s)"
  by (simp add: updateData_begin_def)

lemma isUpdating_resume: "\<not> isUpdating (updateData_resume stringify manual outcome s)"
  by (simp add: updateData_resume_def)

lemma run_invariant:
  "length (pending (run stringify events)) \<le> 1
   \<and> isUpdating (mgr (run stringify events)) = (pending (run stringify events) \<noteq> [])"
proof (induction events rule: rev_induct)
  case Nil
  then show ?case by (simp add: run_def initialSystem_def initialManager_def)
next
  case (snoc e events)
  show ?case
  proof (cases e)
    case (Trigger manual)
    with snoc show ?thesis
      by (auto simp: run_snoc isUpdating_begin)
  next
    case (Settle outcome)
    with snoc show ?thesis
      by (cases "pending (run stringify events)") (auto simp: run_snoc isUpdating_resume)
  qed
qed

text \<open>
  C4. While \<^verbatim>\<open>isUpdating\<close> is set, a call of \<^verbatim>\<open>updateData\<close>, periodic or manual, returns
  at its first line: the state is the same, the count of requests included, and no
  cycle is added to those in flight. In every state the event loop can reach from the
  initial one, at most one cycle is suspended at its request, and the flag is set exactly
  while one is.
\<close>

theorem updateData_mutual_exclusion:
  "(isUpdating s \<longrightarrow> updateData_begin manual s = s \<and> updateData stringify manual outcome s = s)
   \<and> (isUpdating (mgr sys) \<longrightarrow> step stringify sys (Trigger manual) = sys)
   \<and> length (pending (run stringify events)) \<le> 1
   \<and> isUpdating (mgr (run stringify events)) = (pending (run stringify events) \<noteq> [])"
  using run_invariant [of stringify events]
  by (simp add: updateData_begin_def updateData_def)

text \<open>
  After the timer has started a cycle, the button and the timer call \<^verbatim>\<open>updateData\<close>
  again: nothing changes, one request has been issued, one cycle is in flight.
\<close>

theorem updateData_mutual_exclusion_witness:
  "(let stringify = (\<lambda>data. concat (map nombre data));
        sys = run stringify [Trigger False]
    in isUpdating (mgr sys)
       \<and> fetchCalls (mgr sys) = 1
       \<and> updateData_begin True (mgr sys) = mgr sys
       \<and> updateData stringify True NetworkError (mgr sys) = mgr sys
       \<and> step stringify sys (Trigger True) = sys
       \<and> run stringify [Trigger False, Trigger True, Trigger False] = sys
       \<and> length (pending (run stringify [Trigger False, Trigger True, Trigger False])) \<le> 1
       \<and> pending (run stringify [Trigger False, Trigger True, Trigger False]) = [False])"
proof -
  define stringify :: "pueblo list \<Rightarrow> jsstring" where "stringify = (\<lambda>data. concat (map nombre data))"
  define sys where "sys = run stringify [Trigger False]"
  have u: "isUpdating (mgr sys)" and f: "fetchCalls (mgr sys) = 1" and p: "pending sys = [False]"
    by (simp_all add: sys_def run_def initialSystem_def initialManager_def updateData_begin_def)
  have t: "updateData_begin True (mgr sys) = mgr sys
        \<and> updateData stringify True NetworkError (mgr sys) = mgr sys
        \<and> step stringify sys (Trigger True) = sys"
    using updateData_mutual_exclusion [of "mgr sys" True stringify NetworkError sys "[]"] u
    by simp
  have t2: "step stringify sys (Trigger False) = sys"
    using updateData_mutual_exclusion [of "mgr sys" False stringify NetworkError sys "[]"] u
    by simp
  have r: "run stringify [Trigger False, Trigger True, Trigger False] = sys"
    using t t2 by (simp add: run_def sys_def)
  show ?thesis
    using u f t r p
      updateData_mutual_exclusion [of "mgr sys" True stringify NetworkError sys
        "[Trigger False, Trigger True, Trigger False]"]
    unfolding Let_def stringify_def [symmetric] sys_def [symmetric]
    by simp
qed

section \<open>Rows that become records\<close>

lemma processRow_None_iff:
  "processRow row = None \<longleftrightarrow>
     column row 1 = [] \<or> column row 2 = [] \<or> column row 3 = []
     \<or> isNaN (parseFloat (replaceComma (column row 2)))
     \<or> isNaN (parseFloat (replaceComma (column row 3)))"
  unfolding processRow_def Let_def by simp

lemma processRow_Some:
  "processRow row = Some r \<Longrightarrow> nombre r \<noteq> [] \<and> \<not> isNaN (latitud r) \<and> \<not> isNaN (longitud r)"
  unfolding processRow_def Let_def by (auto split: if_splits)

lemma processRows_valid:
  "list_all (\<lambda>r. nombre r \<noteq> [] \<and> \<not> isNaN (latitud r) \<and> \<not> isNaN (longitud r)) data \<Longrightarrow>
   list_all (\<lambda>r. nombre r \<noteq> [] \<and> \<not> isNaN (latitud r) \<and> \<not> isNaN (longitud r)) (processRows rows data)"
proof (induction rows arbitrary: data)
  case Nil
  then show ?case by simp
next
  case (Cons row rows)
  show ?case
  proof (cases "processRow row")
    case None
    then have "processRows (row # rows) data = processRows rows data"
      by simp
    with Cons.IH [OF Cons.prems] show ?thesis by simp
  next
    case (Some rcd)
    then have eq: "processRows (row # rows) data = processRows rows (data @ [rcd])"
      by simp
    from processRow_Some [OF Some] Cons.prems
    have "list_all (\<lambda>r. nombre r \<noteq> [] \<and> \<not> isNaN (latitud r) \<and> \<not> isNaN (longitud r)) (data @ [rcd])"
      by simp
    from Cons.IH [OF this] show ?thesis unfolding eq .
  qed
qed

lemma normalizeRows_valid:
  "list_all (\<lambda>r. nombre r \<noteq> [] \<and> \<not> isNaN (latitud r) \<and> \<not> isNaN (longitud r)) (normalizeRows rows)"
proof (cases "length rows < 2")
  case True
  then show ?thesis by (simp add: normalizeRows_def)
next
  case False
  then have "normalizeRows rows = processRows (tl rows) []"
    by (simp add: normalizeRows_def)
  then show ?thesis
    using processRows_valid [of "[]" "tl rows"] by simp
qed

text \<open>
  C5, as stated. \<^verbatim>\<open>parseFloat("Infinity")\<close> is \<^verbatim>\<open>Infinity\<close>, which is not finite and is
  not \<^verbatim>\<open>NaN\<close>; the guard of the code is \<^verbatim>\<open>isNaN\<close>. A row whose latitude or longitude
  reads \<^verbatim>\<open>Infinity\<close> or \<^verbatim>\<open>-Infinity\<close> becomes a record with that coordinate.
\<close>

theorem parseCSVData_infinity_counterexample:
  "map latitud (parseCSVData (js ''Id,Name,Lat,Lon'' @ [LF] @ js ''1,Ajijic,Infinity,-103.25'' @ [LF]))
     = [PosInfinity]
   \<and> map longitud (parseCSVData (js ''Id,Name,Lat,Lon'' @ [LF] @ js ''1,Ajijic,20.3,-Infinity'' @ [LF]))
     = [NegInfinity]"
  by (simp add: eval_defs)

text \<open>
  C5, amended. A data row gives no record exactly when its name, latitude or longitude
  is empty after trimming or when \<^verbatim>\<open>parseFloat\<close> of a coordinate (its first comma
  rewritten to a point) is \<^verbatim>\<open>NaN\<close>; the loop then goes on with the rows that follow,
  the records collected so far unchanged. Every record of the output has a non-empty
  name and a latitude and a longitude that are not \<^verbatim>\<open>NaN\<close>.
\<close>

theorem parseCSVData_skips_invalid_rows:
  "(processRow row = None \<longleftrightarrow>
      column row 1 = [] \<or> column row 2 = [] \<or> column row 3 = []
      \<or> isNaN (parseFloat (replaceComma (column row 2)))
      \<or> isNaN (parseFloat (replaceComma (column row 3))))
   \<and> (processRow row = None \<longrightarrow> processRows (row # rest) data = processRows rest data)
   \<and> (\<forall>r \<in> set (parseCSVData csvText).
         nombre r \<noteq> [] \<and> \<not> isNaN (latitud r) \<and> \<not> isNaN (longitud r))"
proof -
  have "\<forall>r \<in> set (parseCSVData csvText).
         nombre r \<noteq> [] \<and> \<not> isNaN (latitud r) \<and> \<not> isNaN (longitud r)"
    using normalizeRows_valid [of "parseCSVText csvText"]
    unfolding parseCSVData_def list_all_iff .
  moreover have "processRow row = None \<longrightarrow> processRows (row # rest) data = processRows rest data"
    by simp
  ultimately show ?thesis
    using processRow_None_iff [of row] by blast
qed

text \<open>
  The row \<^verbatim>\<open>2,Tequila,,-103.8\<close> (no latitude) and a row whose latitude is \<^verbatim>\<open>abc\<close> give no
  record; the text with the Ajijic row and the Tequila row gives the Ajijic record only.
\<close>

theorem parseCSVData_skips_invalid_rows_witness:
  "processRow [js ''2'', js ''Tequila'', js '''', js ''-103.8''] = None
   \<and> processRow [js ''3'', js ''Tapalpa'', js ''abc'', js ''-103.8''] = None
   \<and> processRows [[js ''2'', js ''Tequila'', js '''', js ''-103.8'']] [] = []
   \<and> map nombre (parseCSVData (js ''Id,Name,Lat,Lon'' @ [LF] @ js ''1,Ajijic,20.3,-103.25'' @ [LF]
         @ js ''2,Tequila,,-103.8'' @ [LF])) = [js ''Ajijic'']
   \<and> list_all (\<lambda>r. nombre r \<noteq> [] \<and> \<not> isNaN (latitud r) \<and> \<not> isNaN (longitud r))
         (parseCSVData (js ''Id,Name,Lat,Lon'' @ [LF] @ js ''1,Ajijic,20.3,-103.25'' @ [LF]
         @ js ''2,Tequila,,-103.8'' @ [LF]))"
proof -
  have e1: "column [js ''2'', js ''Tequila'', js '''', js ''-103.8''] 2 = []"
    by (simp add: column_def trim_def js_def)
  have e2: "isNaN (parseFloat (replaceComma (column [js ''3'', js ''Tapalpa'', js ''abc'', js ''-103.8''] 2)))"
    by (simp add: eval_defs)
  have n1: "processRow [js ''2'', js ''Tequila'', js '''', js ''-103.8''] = None"
    using parseCSVData_skips_invalid_rows [of "[js ''2'', js ''Tequila'', js '''', js ''-103.8'']"] e1
    by blast
  have n2: "processRow [js ''3'', js ''Tapalpa'', js ''abc'', js ''-103.8''] = None"
    using parseCSVData_skips_invalid_rows [of "[js ''3'', js ''Tapalpa'', js ''abc'', js ''-103.8'']"] e2
    by blast
  have n3: "processRows [[js ''2'', js ''Tequila'', js '''', js ''-103.8'']] [] = []"
    using parseCSVData_skips_invalid_rows [of "[js ''2'', js ''Tequila'', js '''', js ''-103.8'']" "[]" "[]"] n1
    by simp
  have d: "map nombre (parseCSVData (js ''Id,Name,Lat,Lon'' @ [LF] @ js ''1,Ajijic,20.3,-103.25'' @ [LF]
         @ js ''2,Tequila,,-103.8'' @ [LF])) = [js ''Ajijic'']"
    by (simp add: eval_defs)
  have a: "list_all (\<lambda>r. nombre r \<noteq> [] \<and> \<not> isNaN (latitud r) \<and> \<not> isNaN (longitud r))
         (parseCSVData (js ''Id,Name,Lat,Lon'' @ [LF] @ js ''1,Ajijic,20.3,-103.25'' @ [LF]
         @ js ''2,Tequila,,-103.8'' @ [LF]))"
    using parseCSVData_skips_invalid_rows [of "[]" "[]" "[]"
        "js ''Id,Name,Lat,Lon'' @ [LF] @ js ''1,Ajijic,20.3,-103.25'' @ [LF] @ js ''2,Tequila,,-103.8'' @ [LF]"]
    unfolding list_all_iff by blast
  show ?thesis
    using n1 n2 n3 d a by blast
qed

section \<open>The snapshot as a mapping from names\<close>

lemma buildSnapshot_last_writer_wins:
  assumes "js ''__proto__'' \<notin> nombre ` set data"
  shows "keys (buildSnapshot data) = nombre ` set data"
    and "name \<in> nombre ` set data \<Longrightarrow>
          own (buildSnapshot data) name = Some (last (filter (\<lambda>p. nombre p = name) data))"
proof -
  show "keys (buildSnapshot data) = nombre ` set data"
  proof (rule set_eqI)
    fix n
    have "filter (\<lambda>p. nombre p = n) data = [] \<longleftrightarrow> n \<notin> nombre ` set data"
      by (auto simp: filter_empty_conv)
    with assms show "n \<in> keys (buildSnapshot data) \<longleftrightarrow> n \<in> nombre ` set data"
      by (auto simp: keys_def dom_def buildSnapshot_own split: list.splits)
  qed
next
  assume "name \<in> nombre ` set data"
  then have "filter (\<lambda>p. nombre p = name) data \<noteq> []"
    by (auto simp: filter_empty_conv)
  moreover from \<open>name \<in> nombre ` set data\<close> assms have "name \<noteq> js ''__proto__''"
    by blast
  ultimately show "own (buildSnapshot data) name = Some (last (filter (\<lambda>p. nombre p = name) data))"
    by (auto simp: buildSnapshot_own split: list.splits)
qed

text \<open>
  C8 at a town named \<^verbatim>\<open>__proto__\<close>. The dataset holds one record, of that name; the
  snapshot built from it has no key at all (\<^verbatim>\<open>Object.keys\<close> and \<^verbatim>\<open>Object.values\<close> are
  empty, so no marker is drawn), and the record has become the prototype of the
  snapshot. For every dataset without that name the lemma above gives the claim: the
  keys are the names and each key holds the last record of its name.
\<close>

theorem buildSnapshot_proto_name:
  "map nombre (parseCSVData (js ''Id,Name,Lat,Lon'' @ [LF] @ js ''1,__proto__,20.3,-103.25'' @ [LF]))
     = [js ''__proto__'']
   \<and> keys (buildSnapshot
        (parseCSVData (js ''Id,Name,Lat,Lon'' @ [LF] @ js ''1,__proto__,20.3,-103.25'' @ [LF]))) = {}
   \<and> map_option nombre (proto (buildSnapshot
        (parseCSVData (js ''Id,Name,Lat,Lon'' @ [LF] @ js ''1,__proto__,20.3,-103.25'' @ [LF]))))
     = Some (js ''__proto__'')"
proof -
  have d: "parseCSVData (js ''Id,Name,Lat,Lon'' @ [LF] @ js ''1,__proto__,20.3,-103.25'' @ [LF]) =
     [\<lparr>nombre = js ''__proto__'', latitud = Finite (203 / 10), longitud = Finite (- (10325 / 100)),
       seguridad = js ''Informaci'' @ [243] @ js ''n no disponible'',
       securityTips = js ''Information not available'',
       distancia = js ''N/A'', ruta = js ''#'', linkTurismo = js ''#''\<rparr>]"
    by (simp add: eval_defs)
  show ?thesis
    unfolding d
    by (simp add: buildSnapshot_def setProperty_def emptyObject_def keys_def)
qed

section \<open>Quoted fields\<close>

lemma scan_quoted_body:
  "nextChar rest \<noteq> Some QUOTE \<Longrightarrow>
   scanCSV nb (doubleQuotes v @ QUOTE # rest) rows row field True =
   scanCSV nb rest rows row (field @ v) False"
proof (induction v arbitrary: field)
  case Nil
  then show ?case by (simp add: doubleQuotes_def)
next
  case (Cons c v)
  have IH: "scanCSV nb (doubleQuotes v @ QUOTE # rest) rows row (field @ [c]) True =
        scanCSV nb rest rows row ((field @ [c]) @ v) False"
    using Cons.IH [OF Cons.prems] .
  show ?case
  proof (cases "c = QUOTE")
    case True
    have "doubleQuotes (c # v) = QUOTE # QUOTE # doubleQuotes v"
      using True by (simp add: doubleQuotes_def)
    then show ?thesis
      using IH True by (simp add: nextChar_def)
  next
    case False
    have "doubleQuotes (c # v) = c # doubleQuotes v"
      using False by (simp add: doubleQuotes_def)
    then show ?thesis
      using IH False by simp
  qed
qed

lemma scan_quoteField:
  "nextChar rest \<noteq> Some QUOTE \<Longrightarrow>
   scanCSV nb (quoteField v @ rest) rows row field False =
   scanCSV nb rest rows row (field @ v) False"
proof -
  assume r: "nextChar rest \<noteq> Some QUOTE"
  have "nextChar (doubleQuotes v @ QUOTE # rest) = Some QUOTE \<Longrightarrow> True"
    by simp
  have "scanCSV nb (quoteField v @ rest) rows row field False =
        scanCSV nb (doubleQuotes v @ QUOTE # rest) rows row field True"
    by (simp add: quoteField_def)
  then show ?thesis
    using scan_quoted_body [OF r] by simp
qed

lemma scan_encodeRow:
  assumes "vs \<noteq> []" and "\<not> nb []"
  shows "scanCSV nb (encodeRow vs @ LF # rest) rows row [] False =
         scanCSV nb rest (if list_ex nb (row @ vs) then rows @ [row @ vs] else rows) [] [] False"
  using assms(1)
proof (induction vs arbitrary: row rule: list_nonempty_induct)
  case (single v)
  have "scanCSV nb (encodeRow [v] @ LF # rest) rows row [] False =
        scanCSV nb (LF # rest) rows row v False"
    using scan_quoteField [of "LF # rest" nb v rows row "[]"] by (simp add: nextChar_def)
  then show ?case
    using assms(2) by (auto simp: pushRow_def nextChar_def)
next
  case (cons v vs)
  then obtain w ws where vs: "vs = w # ws"
    by (cases vs) auto
  have "scanCSV nb (encodeRow (v # vs) @ LF # rest) rows row [] False =
        scanCSV nb (COMMA # encodeRow vs @ LF # rest) rows row v False"
    using scan_quoteField [of "COMMA # encodeRow vs @ LF # rest" nb v rows row "[]"]
    by (simp add: vs nextChar_def)
  also have "\<dots> = scanCSV nb (encodeRow vs @ LF # rest) rows (row @ [v]) [] False"
    by simp
  also have "\<dots> = scanCSV nb rest (if list_ex nb ((row @ [v]) @ vs) then rows @ [(row @ [v]) @ vs] else rows) [] [] False"
    by (rule cons.IH)
  finally show ?case by simp
qed

lemma scan_encodeCSV:
  assumes "\<forall>r \<in> set rs. r \<noteq> []" and "\<not> nb []"
  shows "scanCSV nb (encodeCSV rs) rows [] [] False = rows @ filter (list_ex nb) rs"
  using assms(1)
proof (induction rs arbitrary: rows)
  case Nil
  then show ?case by (simp add: encodeCSV_def)
next
  case (Cons r rs)
  then have r: "r \<noteq> []" and rs: "\<forall>r \<in> set rs. r \<noteq> []"
    by simp_all
  have "encodeCSV (r # rs) = encodeRow r @ LF # encodeCSV rs"
    by (simp add: encodeCSV_def)
  then have "scanCSV nb (encodeCSV (r # rs)) rows [] [] False =
        scanCSV nb (encodeCSV rs) (if list_ex nb r then rows @ [r] else rows) [] [] False"
    using scan_encodeRow [where vs = r and nb = nb and rest = "encodeCSV rs" and rows = rows
        and row = "[]", OF r assms(2)]
    by simp
  then show ?case
    using Cons.IH [OF rs] by simp
qed

lemma trim_Nil_iff: "trim v = [] \<longleftrightarrow> (\<forall>c \<in> set v. isWhiteSpace c)"
proof (cases "dropWhile isWhiteSpace v")
  case Nil
  then have "\<forall>c \<in> set v. isWhiteSpace c"
    by (simp add: dropWhile_eq_Nil_conv)
  moreover have "trim v = []"
    unfolding trim_def Nil by simp
  ultimately show ?thesis by simp
next
  case (Cons a as)
  then have a: "\<not> isWhiteSpace a"
    using hd_dropWhile [of isWhiteSpace v] by simp
  have "a \<in> set (dropWhile isWhiteSpace v)"
    using Cons by simp
  then have "a \<in> set v"
    by (rule set_dropWhileD)
  with a have "\<not> (\<forall>c \<in> set v. isWhiteSpace c)"
    by blast
  moreover have "trim v \<noteq> []"
    unfolding trim_def Cons using a by (simp add: dropWhile_eq_Nil_conv)
  ultimately show ?thesis by simp
qed

lemma roundtrip_single:
  assumes "\<exists>c \<in> set v. \<not> isWhiteSpace c"
  shows "parseCSVText (quoteField v) = [[v]] \<and> parseCSVText_v2 (quoteField v) = [[v]]"
proof -
  from assms have t: "trim v \<noteq> []"
    by (simp add: trim_Nil_iff)
  from assms have n: "v \<noteq> []"
    by auto
  have "scanCSV nb (quoteField v) [] [] [] False = scanCSV nb [] [] [] v False" for nb
    using scan_quoteField [of "[]" nb v "[]" "[]" "[]"] by (simp add: nextChar_def)
  with t n show ?thesis
    by (simp add: parseCSVText_def parseCSVText_v2_def pushRow_def)
qed

lemma nonblank_row:
  assumes "f \<in> set r" and "c \<in> set f" and "\<not> isWhiteSpace c"
  shows "list_ex (\<lambda>field. length (trim field) > 0) r" and "list_ex (\<lambda>f. length f > 0) r"
proof -
  from assms(2,3) have "trim f \<noteq> []"
    unfolding trim_Nil_iff by blast
  with assms(1) show "list_ex (\<lambda>field. length (trim field) > 0) r"
    unfolding list_ex_iff by auto
  from assms(2) have "f \<noteq> []"
    by auto
  with assms(1) show "list_ex (\<lambda>f. length f > 0) r"
    unfolding list_ex_iff by auto
qed

lemma roundtrip_table:
  assumes h: "\<forall>r \<in> set rs. r \<noteq> [] \<and> (\<exists>f \<in> set r. \<exists>c \<in> set f. \<not> isWhiteSpace c)"
  shows "parseCSVText (encodeCSV rs) = rs \<and> parseCSVText_v2 (encodeCSV rs) = rs"
proof -
  from h have ne: "\<forall>r \<in> set rs. r \<noteq> []"
    by blast
  have "list_ex (\<lambda>field. length (trim field) > 0) r \<and> list_ex (\<lambda>f. length f > 0) r"
    if "r \<in> set rs" for r
  proof -
    from h that obtain f c where "f \<in> set r" "c \<in> set f" "\<not> isWhiteSpace c"
      by blast
    then show ?thesis
      using nonblank_row by blast
  qed
  then have k1: "filter (list_ex (\<lambda>field. length (trim field) > 0)) rs = rs"
    and k2: "filter (list_ex (\<lambda>f. length f > 0)) rs = rs"
    unfolding filter_id_conv by blast+
  have n1: "\<not> (\<lambda>field. length (trim field) > 0) []" and n2: "\<not> (\<lambda>f::jsstring. length f > 0) []"
    by (simp_all add: trim_def)
  show ?thesis
    unfolding parseCSVText_def parseCSVText_v2_def
      scan_encodeCSV [where nb = "\<lambda>field. length (trim field) > 0", OF ne n1]
      scan_encodeCSV [where nb = "\<lambda>f. length f > 0", OF ne n2] k1 k2
    by simp
qed

text \<open>
  C2. A field \<open>v\<close> that holds a character other than white space (a comma or a quote
  is one), encoded by the standard escaping, is read back as the one field \<open>v\<close> by both
  copies of \<^verbatim>\<open>parseCSVText\<close>; so is a whole table of such rows. Wherever the encoded
  field stands in a text, outside quotes and not followed by a quote, the scan adds
  exactly \<open>v\<close> to the current field and leaves quoted mode. Inside quoted mode, a quote
  followed by a quote adds one quote to the field and consumes both characters, and a
  comma, a line feed or a carriage return is added to the field as it is.
\<close>

theorem parseCSVText_quoting_roundtrip:
  "((\<exists>c \<in> set v. \<not> isWhiteSpace c) \<longrightarrow>
      parseCSVText (quoteField v) = [[v]] \<and> parseCSVText_v2 (quoteField v) = [[v]])
   \<and> ((\<forall>r \<in> set rs. r \<noteq> [] \<and> (\<exists>f \<in> set r. \<exists>c \<in> set f. \<not> isWhiteSpace c)) \<longrightarrow>
      parseCSVText (encodeCSV rs) = rs \<and> parseCSVText_v2 (encodeCSV rs) = rs)
   \<and> (nextChar rest \<noteq> Some QUOTE \<longrightarrow>
      scanCSV nonblank (quoteField v @ rest) rows currentRow currentField False =
      scanCSV nonblank rest rows currentRow (currentField @ v) False)
   \<and> scanCSV nonblank (QUOTE # QUOTE # rest) rows currentRow currentField True =
      scanCSV nonblank rest rows currentRow (currentField @ [QUOTE]) True
   \<and> (c = COMMA \<or> c = LF \<or> c = CR \<longrightarrow>
      scanCSV nonblank (c # rest) rows currentRow currentField True =
      scanCSV nonblank rest rows currentRow (currentField @ [c]) True)"
proof -
  have escaped: "scanCSV nonblank (QUOTE # QUOTE # rest) rows currentRow currentField True =
      scanCSV nonblank rest rows currentRow (currentField @ [QUOTE]) True"
    by (simp add: nextChar_def)
  have literal: "scanCSV nonblank (c # rest) rows currentRow currentField True =
      scanCSV nonblank rest rows currentRow (currentField @ [c]) True"
    if "c = COMMA \<or> c = LF \<or> c = CR"
  proof -
    from that have "c \<noteq> QUOTE" by auto
    then show ?thesis by simp
  qed
  show ?thesis
    using roundtrip_single [of v] roundtrip_table [of rs]
      scan_quoteField [of rest nonblank v rows currentRow currentField] escaped literal
    by blast
qed

text \<open>
  The field \<^verbatim>\<open>a,"b"\nc\<close> holds a comma, a line break and quotes; its encoding is
  \<^verbatim>\<open>"a,""b""\nc"\<close>.
\<close>

theorem parseCSVText_quoting_roundtrip_witness:
  "quoteField (js ''a,\"b\"'' @ [LF] @ js ''c'') = js ''\"a,\"\"b\"\"'' @ [LF] @ js ''c\"''
   \<and> parseCSVText (js ''\"a,\"\"b\"\"'' @ [LF] @ js ''c\"'') = [[js ''a,\"b\"'' @ [LF] @ js ''c'']]
   \<and> parseCSVText_v2 (js ''\"a,\"\"b\"\"'' @ [LF] @ js ''c\"'') = [[js ''a,\"b\"'' @ [LF] @ js ''c'']]
   \<and> parseCSVText (encodeCSV [[js ''a,\"b\"'' @ [LF] @ js ''c'', []], [js ''d'']])
       = [[js ''a,\"b\"'' @ [LF] @ js ''c'', []], [js ''d'']]
   \<and> scanCSV (\<lambda>f. length f > 0) (js ''\"\"x'') [] [] [] True
       = scanCSV (\<lambda>f. length f > 0) (js ''x'') [] [] [QUOTE] True
   \<and> scanCSV (\<lambda>f. length f > 0) (js '',x'') [] [] [] True
       = scanCSV (\<lambda>f. length f > 0) (js ''x'') [] [] [COMMA] True"
proof -
  define v where "v = js ''a,\"b\"'' @ [LF] @ js ''c''"
  have q: "quoteField v = js ''\"a,\"\"b\"\"'' @ [LF] @ js ''c\"''"
    by (simp add: v_def quoteField_def doubleQuotes_def js_def)
  have nw: "\<exists>c \<in> set v. \<not> isWhiteSpace c"
    by (simp add: v_def js_def isWhiteSpace_def)
  have rows: "\<forall>r \<in> set [[v, []], [js ''d'']]. r \<noteq> [] \<and> (\<exists>f \<in> set r. \<exists>c \<in> set f. \<not> isWhiteSpace c)"
    by (simp add: v_def js_def isWhiteSpace_def)
  note t = parseCSVText_quoting_roundtrip [where v = v and rs = "[[v, []], [js ''d'']]"
      and rest = "js ''x''" and nonblank = "\<lambda>f. length f > 0" and rows = "[]"
      and currentRow = "[]" and currentField = "[]" and c = COMMA]
  have "parseCSVText (quoteField v) = [[v]] \<and> parseCSVText_v2 (quoteField v) = [[v]]"
    using t nw by blast
  moreover have "parseCSVText (encodeCSV [[v, []], [js ''d'']]) = [[v, []], [js ''d'']]"
    using t rows by blast
  moreover have "scanCSV (\<lambda>f. length f > 0) (js ''\"\"x'') [] [] [] True
       = scanCSV (\<lambda>f. length f > 0) (js ''x'') [] [] [QUOTE] True"
    using t by (simp add: js_def)
  moreover have "scanCSV (\<lambda>f. length f > 0) (js '',x'') [] [] [] True
       = scanCSV (\<lambda>f. length f > 0) (js ''x'') [] [] [COMMA] True"
    using t by (simp add: js_def)
  ultimately show ?thesis
    unfolding q [symmetric] v_def [symmetric] using q by simp
qed

section \<open>Malformed quoting and the size of the result\<close>

lemma scan_unterminated:
  "QUOTE \<notin> set body \<Longrightarrow>
   scanCSV nb body rows row field True = scanCSV nb [] rows row (field @ body) True"
proof (induction body arbitrary: field)
  case Nil
  then show ?case by simp
next
  case (Cons c body)
  then have c: "c \<noteq> QUOTE" and b: "QUOTE \<notin> set body"
    by auto
  have "scanCSV nb (c # body) rows row field True = scanCSV nb body rows row (field @ [c]) True"
    using c by simp
  also have "\<dots> = scanCSV nb [] rows row ((field @ [c]) @ body) True"
    by (rule Cons.IH [OF b])
  finally show ?case by simp
qed

lemma pushRow_chars:
  "length (concat (concat (pushRow nb rows row field)))
     \<le> length (concat (concat rows)) + length (concat row) + length field"
  by (simp add: pushRow_def)

lemma scan_chars:
  "length (concat (concat (scanCSV nb csv rws rw fld inq)))
     \<le> length (concat (concat rws)) + length (concat rw) + length fld + length csv"
proof (induction nb csv rws rw fld inq rule: scanCSV.induct)
  case (1 nonblank rws rw fld inq)
  then show ?case
    using pushRow_chars [of nonblank rws rw fld] by simp
next
  case (2 nonblank c cs rws rw fld inq)
  have tl: "length (tl cs) \<le> length cs"
    by simp
  show ?case
  proof (cases "c = QUOTE")
    case True
    then show ?thesis
      using 2(1,2) tl by (cases "inq \<and> nextChar cs = Some QUOTE") auto
  next
    case q: False
    show ?thesis
    proof (cases "c = COMMA \<and> \<not> inq")
      case True
      then show ?thesis
        using 2(3) q by auto
    next
      case k: False
      show ?thesis
      proof (cases "(c = LF \<or> c = CR) \<and> \<not> inq")
        case True
        show ?thesis
        proof (cases "fld \<noteq> [] \<or> rw \<noteq> []")
          case p: True
          have "length (concat (concat (scanCSV nonblank (c # cs) rws rw fld inq)))
               \<le> length (concat (concat (pushRow nonblank rws rw fld))) + length cs"
            using 2(4) [OF q k True p] q k True p tl
            by (cases "c = CR \<and> nextChar cs = Some LF") auto
          then show ?thesis
            using pushRow_chars [of nonblank rws rw fld] by simp
        next
          case p: False
          then show ?thesis
            using 2(5) [OF q k True p] q k True tl
            by (cases "c = CR \<and> nextChar cs = Some LF") auto
        qed
      next
        case False
        then show ?thesis
          using 2(6) [OF q k False] q k by auto
      qed
    qed
  qed
qed

lemma pushRow_nonblank:
  "list_all (list_ex nb) rows \<Longrightarrow> list_all (list_ex nb) (pushRow nb rows row field)"
  by (simp add: pushRow_def)

lemma scan_rows_nonblank:
  "list_all (list_ex nb) rows \<Longrightarrow> list_all (list_ex nb) (scanCSV nb csv rows row field inq)"
proof (induction nb csv rows row field inq rule: scanCSV.induct)
  case (1 nonblank rows row field inq)
  then show ?case
    using pushRow_nonblank [of nonblank rows row field] by simp
next
  case (2 nonblank c cs rows row field inq)
  note ok = \<open>list_all (list_ex nonblank) rows\<close>
  show ?case
  proof (cases "c = QUOTE")
    case True
    then show ?thesis
      using 2(1,2) ok by (cases "inq \<and> nextChar cs = Some QUOTE") auto
  next
    case q: False
    show ?thesis
    proof (cases "c = COMMA \<and> \<not> inq")
      case True
      then show ?thesis
        using 2(3) q ok by auto
    next
      case k: False
      show ?thesis
      proof (cases "(c = LF \<or> c = CR) \<and> \<not> inq")
        case True
        show ?thesis
        proof (cases "field \<noteq> [] \<or> row \<noteq> []")
          case p: True
          show ?thesis
            using 2(4) [OF q k True p pushRow_nonblank [OF ok]] q k True p
            by (cases "c = CR \<and> nextChar cs = Some LF") auto
        next
          case p: False
          then show ?thesis
            using 2(5) [OF q k True p ok] q k True
            by (cases "c = CR \<and> nextChar cs = Some LF") auto
        qed
      next
        case False
        then show ?thesis
          using 2(6) [OF q k False ok] q k by auto
      qed
    qed
  qed
qed

lemma rows_le_chars:
  "list_all (\<lambda>r. concat r \<noteq> []) rs \<Longrightarrow> length rs \<le> length (concat (concat rs))"
proof (induction rs)
  case Nil
  then show ?case by simp
next
  case (Cons r rs)
  from Cons.prems have "concat r \<noteq> []"
    by (simp del: concat_eq_Nil_conv)
  then have pos: "0 < length (concat r)"
    unfolding length_greater_0_conv .
  from Cons have ih: "length rs \<le> length (concat (concat rs))"
    by (simp del: concat_eq_Nil_conv)
  have e1: "length (r # rs) = Suc (length rs)"
    by simp
  have e2: "length (concat (concat (r # rs))) = length (concat r) + length (concat (concat rs))"
    by simp
  show ?case
    using pos ih e1 e2 by linarith
qed

lemma parseCSVText_rows_nonblank:
  "list_all (list_ex (\<lambda>field. \<exists>c \<in> set field. \<not> isWhiteSpace c)) (parseCSVText csv)"
proof -
  have "list_all (list_ex (\<lambda>field. length (trim field) > 0)) (parseCSVText csv)"
    unfolding parseCSVText_def by (rule scan_rows_nonblank) simp
  then show ?thesis
    unfolding length_greater_0_conv trim_Nil_iff by simp
qed

lemma scan_end_flush:
  "scanCSV nb [] rows row field inq =
     (if field \<noteq> [] \<or> row \<noteq> []
      then (if list_ex nb (row @ [field]) then rows @ [row @ [field]] else rows)
      else rows)"
  by (simp add: pushRow_def)

lemma scan_final_newline:
  "QUOTE \<notin> set tail \<Longrightarrow>
   scanCSV nb (tail @ [LF]) rows row field False = scanCSV nb tail rows row field False"
proof (induction tail arbitrary: rows row field rule: length_induct)
  case (1 tail)
  note IH = "1.IH" [rule_format]
  show ?case
  proof (cases tail)
    case Nil
    then show ?thesis
      by (simp add: nextChar_def)
  next
    case (Cons c cs)
    with "1.prems" have nq: "c \<noteq> QUOTE" and cs: "QUOTE \<notin> set cs"
      by auto
    have tl: "QUOTE \<notin> set (tl cs)"
      using cs by (cases cs) auto
    show ?thesis
    proof (cases "c = CR")
      case True
      show ?thesis
      proof (cases cs)
        case Nil
        then show ?thesis
          using Cons True by (simp add: nextChar_def)
      next
        case inner: (Cons d ds)
        show ?thesis
        proof (cases "d = LF")
          case dl: True
          have "QUOTE \<notin> set ds" and "length ds < length tail"
            using cs inner Cons by simp_all
          from IH [OF this(2) this(1)]
          show ?thesis
            using Cons True inner dl by (simp add: nextChar_def)
        next
          case False
          have "length cs < length tail"
            using Cons by simp
          from IH [OF this cs]
          show ?thesis
            using Cons True inner False by (simp add: nextChar_def)
        qed
      qed
    next
      case False
      have "length cs < length tail"
        using Cons by simp
      from IH [OF this cs]
      show ?thesis
        using Cons False nq by auto
    qed
  qed
qed

lemma scan_plain:
  "\<forall>c \<in> set f. c \<noteq> QUOTE \<and> c \<noteq> COMMA \<and> c \<noteq> LF \<and> c \<noteq> CR \<Longrightarrow>
   scanCSV nb (f @ rest) rows row field False = scanCSV nb rest rows row (field @ f) False"
proof (induction f arbitrary: field)
  case Nil
  then show ?case by simp
next
  case (Cons c f)
  then have c: "c \<noteq> QUOTE" "c \<noteq> COMMA" "c \<noteq> LF" "c \<noteq> CR"
    and f: "\<forall>c \<in> set f. c \<noteq> QUOTE \<and> c \<noteq> COMMA \<and> c \<noteq> LF \<and> c \<noteq> CR"
    by simp_all
  have "scanCSV nb ((c # f) @ rest) rows row field False =
        scanCSV nb (f @ rest) rows row (field @ [c]) False"
    using c by simp
  also have "\<dots> = scanCSV nb rest rows row ((field @ [c]) @ f) False"
    by (rule Cons.IH [OF f])
  finally show ?case by simp
qed

text \<open>
  C9. \<^verbatim>\<open>parseCSVText\<close> is a function of its text alone, defined by recursion on the text
  that remains, which is shorter at every step (the termination proof of \<open>scanCSV\<close>); no
  step of it can fail. At the end of the input, in quoted mode or not, a pending field
  or row is pushed as a row (unless all its fields are blank) and nothing else changes.
  After a quote that is never closed, all that follows is added to the current field,
  and the end of the input flushes that field with the fields before it: a text that
  is one opening quote and then \<open>body\<close> gives the one field \<open>body\<close> (no row when \<open>body\<close>
  is blank), and the texts \<^verbatim>\<open>a,b\<close> and \<^verbatim>\<open>a,"b\<close> give the row of \<open>a\<close> and \<open>b\<close>. For a
  text without quotes the end of the input does what a final line feed does. The result
  never holds more characters, nor more rows, than the text has characters.
\<close>

theorem parseCSVText_total_forgiving:
  "(QUOTE \<notin> set body \<longrightarrow>
      scanCSV nonblank body rows currentRow currentField True =
      scanCSV nonblank [] rows currentRow (currentField @ body) True)
   \<and> (QUOTE \<notin> set body \<longrightarrow>
      parseCSVText (QUOTE # body) = (if trim body = [] then [] else [[body]]))
   \<and> scanCSV nonblank [] rows currentRow currentField True =
      scanCSV nonblank [] rows currentRow currentField False
   \<and> length (concat (concat (parseCSVText csvText))) \<le> length csvText
   \<and> length (parseCSVText csvText) \<le> length csvText
   \<and> scanCSV nonblank [] rows currentRow currentField inQuotes =
      (if currentField \<noteq> [] \<or> currentRow \<noteq> []
       then (if list_ex nonblank (currentRow @ [currentField])
             then rows @ [currentRow @ [currentField]] else rows)
       else rows)
   \<and> (QUOTE \<notin> set body \<longrightarrow>
      scanCSV nonblank body rows currentRow currentField True =
      (if currentField @ body \<noteq> [] \<or> currentRow \<noteq> []
       then (if list_ex nonblank (currentRow @ [currentField @ body])
             then rows @ [currentRow @ [currentField @ body]] else rows)
       else rows))
   \<and> (QUOTE \<notin> set body \<longrightarrow>
      scanCSV nonblank (body @ [LF]) rows currentRow currentField False =
      scanCSV nonblank body rows currentRow currentField False)
   \<and> (QUOTE \<notin> set csvText \<longrightarrow> parseCSVText (csvText @ [LF]) = parseCSVText csvText)
   \<and> ((\<forall>c \<in> set (a @ b). c \<noteq> QUOTE \<and> c \<noteq> COMMA \<and> c \<noteq> LF \<and> c \<noteq> CR)
        \<and> (\<exists>c \<in> set (a @ b). \<not> isWhiteSpace c) \<longrightarrow>
      parseCSVText (a @ COMMA # b) = [[a, b]]
      \<and> parseCSVText (a @ COMMA # QUOTE # b) = [[a, b]])"
proof -
  have open_quote: "parseCSVText (QUOTE # body) = (if trim body = [] then [] else [[body]])"
    if "QUOTE \<notin> set body"
  proof -
    have "parseCSVText (QUOTE # body) = scanCSV (\<lambda>field. length (trim field) > 0) body [] [] [] True"
      by (simp add: parseCSVText_def)
    also have "\<dots> = scanCSV (\<lambda>field. length (trim field) > 0) [] [] [] body True"
      using scan_unterminated [OF that, of "\<lambda>field. length (trim field) > 0" "[]" "[]" "[]"] by simp
    also have "\<dots> = (if trim body = [] then [] else [[body]])"
      by (cases "body = []") (simp_all add: pushRow_def trim_def)
    finally show ?thesis .
  qed
  have chars: "length (concat (concat (parseCSVText csvText))) \<le> length csvText"
    using scan_chars [of "\<lambda>field. length (trim field) > 0" csvText "[]" "[]" "[]" False]
    by (simp add: parseCSVText_def)
  have "list_all (\<lambda>r. concat r \<noteq> []) (parseCSVText csvText)"
    using parseCSVText_rows_nonblank [of csvText]
    unfolding list_all_iff list_ex_iff by fastforce
  then have "length (parseCSVText csvText) \<le> length (concat (concat (parseCSVText csvText)))"
    by (rule rows_le_chars)
  with chars have rows: "length (parseCSVText csvText) \<le> length csvText"
    by simp
  have flush: "scanCSV nonblank [] rows currentRow f q =
      (if f \<noteq> [] \<or> currentRow \<noteq> []
       then (if list_ex nonblank (currentRow @ [f]) then rows @ [currentRow @ [f]] else rows)
       else rows)" for f q
    by (rule scan_end_flush)
  have unterminated: "scanCSV nonblank body rows currentRow currentField True =
      (if currentField @ body \<noteq> [] \<or> currentRow \<noteq> []
       then (if list_ex nonblank (currentRow @ [currentField @ body])
             then rows @ [currentRow @ [currentField @ body]] else rows)
       else rows)" if "QUOTE \<notin> set body"
    unfolding scan_unterminated [OF that] by (rule flush)
  have newline: "parseCSVText (csvText @ [LF]) = parseCSVText csvText" if "QUOTE \<notin> set csvText"
    unfolding parseCSVText_def by (rule scan_final_newline [OF that])
  have plain: "parseCSVText (a @ COMMA # b) = [[a, b]]
      \<and> parseCSVText (a @ COMMA # QUOTE # b) = [[a, b]]"
    if p: "\<forall>c \<in> set (a @ b). c \<noteq> QUOTE \<and> c \<noteq> COMMA \<and> c \<noteq> LF \<and> c \<noteq> CR"
      and n: "\<exists>c \<in> set (a @ b). \<not> isWhiteSpace c"
  proof -
    let ?nb = "\<lambda>field. length (trim field) > 0"
    from p have pa: "\<forall>c \<in> set a. c \<noteq> QUOTE \<and> c \<noteq> COMMA \<and> c \<noteq> LF \<and> c \<noteq> CR"
      and pb: "\<forall>c \<in> set b. c \<noteq> QUOTE \<and> c \<noteq> COMMA \<and> c \<noteq> LF \<and> c \<noteq> CR"
      by simp_all
    from pb have qb: "QUOTE \<notin> set b"
      by blast
    from n have "trim a \<noteq> [] \<or> trim b \<noteq> []"
      unfolding trim_Nil_iff by auto
    then have keep: "list_ex ?nb ([a] @ [b])"
      by auto
    have "scanCSV ?nb (a @ COMMA # b) [] [] [] False = scanCSV ?nb (COMMA # b) [] [] a False"
      using scan_plain [OF pa, of ?nb "COMMA # b" "[]" "[]" "[]"] by simp
    also have "\<dots> = scanCSV ?nb (b @ []) [] [a] [] False"
      by simp
    also have "\<dots> = scanCSV ?nb [] [] [a] b False"
      using scan_plain [OF pb, of ?nb "[]" "[]" "[a]" "[]"] by simp
    also have "\<dots> = [[a, b]]"
      unfolding scan_end_flush using keep by simp
    finally have one: "parseCSVText (a @ COMMA # b) = [[a, b]]"
      by (simp add: parseCSVText_def)
    have "scanCSV ?nb (a @ COMMA # QUOTE # b) [] [] [] False =
          scanCSV ?nb (COMMA # QUOTE # b) [] [] a False"
      using scan_plain [OF pa, of ?nb "COMMA # QUOTE # b" "[]" "[]" "[]"] by simp
    also have "\<dots> = scanCSV ?nb b [] [a] [] True"
      by simp
    also have "\<dots> = scanCSV ?nb [] [] [a] b True"
      using scan_unterminated [OF qb, of ?nb "[]" "[a]" "[]"] by simp
    also have "\<dots> = [[a, b]]"
      unfolding scan_end_flush using keep by simp
    finally have two: "parseCSVText (a @ COMMA # QUOTE # b) = [[a, b]]"
      by (simp add: parseCSVText_def)
    from one two show ?thesis by blast
  qed
  have same: "scanCSV nonblank [] rows currentRow currentField True =
      scanCSV nonblank [] rows currentRow currentField False"
    by simp
  show ?thesis
    using open_quote scan_unterminated [of body nonblank rows currentRow currentField] chars rows
      flush [of currentField inQuotes] unterminated
      scan_final_newline [of body nonblank rows currentRow currentField] newline plain same
    by blast
qed

text \<open>
  The text \<^verbatim>\<open>a,b\n"c,d\ne\<close>: the quote of the second line is never closed, and the
  rest of the text is the one field of the second row. The texts \<^verbatim>\<open>a,b\<close> and \<^verbatim>\<open>a,"b\<close>
  end with a row of two fields pending.
\<close>

theorem parseCSVText_total_forgiving_witness:
  "parseCSVText (js ''a,b'' @ [LF] @ js ''\"c,d'' @ [LF] @ js ''e'')
     = [[js ''a'', js ''b''], [js ''c,d'' @ [LF] @ js ''e'']]
   \<and> parseCSVText (js ''\"c,d'' @ [LF] @ js ''e'') = [[js ''c,d'' @ [LF] @ js ''e'']]
   \<and> scanCSV (\<lambda>f. length f > 0) (js ''c,d'' @ [LF] @ js ''e'') [[js ''a'', js ''b'']] [] [] True
     = [[js ''a'', js ''b''], [js ''c,d'' @ [LF] @ js ''e'']]
   \<and> length (parseCSVText (js ''\"c,d'' @ [LF] @ js ''e'')) \<le> 6
   \<and> parseCSVText (js ''a,b'') = [[js ''a'', js ''b'']]
   \<and> parseCSVText (js ''a,\"b'') = [[js ''a'', js ''b'']]
   \<and> parseCSVText (js ''a,b'' @ [LF]) = [[js ''a'', js ''b'']]
   \<and> scanCSV (\<lambda>f. length f > 0) [] [[js ''x'']] [js ''a''] (js ''b'') True
     = [[js ''x''], [js ''a'', js ''b'']]
   \<and> scanCSV (\<lambda>f. length f > 0) [] [[js ''x'']] [js ''a''] [] False
     = [[js ''x''], [js ''a'', []]]"
proof -
  define body where "body = js ''c,d'' @ [LF] @ js ''e''"
  have nq: "QUOTE \<notin> set body"
    by (simp add: body_def js_def)
  have tb: "trim body \<noteq> []"
    unfolding trim_Nil_iff by (simp add: body_def js_def isWhiteSpace_def)
  note t = parseCSVText_total_forgiving [where body = body and nonblank = "\<lambda>f. length f > 0"
      and rows = "[[js ''a'', js ''b'']]" and currentRow = "[]" and currentField = "[]"
      and csvText = "QUOTE # body" and inQuotes = True and a = "js ''a''" and b = "js ''b''"]
  have a: "parseCSVText (QUOTE # body) = [[body]]"
    using t nq tb by simp
  have b: "scanCSV (\<lambda>f. length f > 0) body [[js ''a'', js ''b'']] [] [] True
      = [[js ''a'', js ''b''], [body]]"
    using t nq by (simp add: pushRow_def body_def js_def)
  have c: "length (parseCSVText (QUOTE # body)) \<le> 6"
    using t by (simp add: body_def js_def)
  have d: "parseCSVText (js ''a,b'' @ [LF] @ QUOTE # body) = [[js ''a'', js ''b''], [body]]"
    by (simp add: eval_defs body_def)
  have e: "js ''\"c,d'' = QUOTE # js ''c,d''"
    by (simp add: js_def)
  have plain: "\<forall>c \<in> set (js ''a'' @ js ''b''). c \<noteq> QUOTE \<and> c \<noteq> COMMA \<and> c \<noteq> LF \<and> c \<noteq> CR"
    and nonblank: "\<exists>c \<in> set (js ''a'' @ js ''b''). \<not> isWhiteSpace c"
    by (simp_all add: js_def isWhiteSpace_def)
  have ab: "js ''a,b'' = js ''a'' @ COMMA # js ''b''" "js ''a,\"b'' = js ''a'' @ COMMA # QUOTE # js ''b''"
    by (simp_all add: js_def)
  have f: "parseCSVText (js ''a,b'') = [[js ''a'', js ''b'']]
      \<and> parseCSVText (js ''a,\"b'') = [[js ''a'', js ''b'']]"
    unfolding ab using t plain nonblank by blast
  have noq: "QUOTE \<notin> set (js ''a,b'')"
    by (simp add: js_def)
  have g: "parseCSVText (js ''a,b'' @ [LF]) = [[js ''a'', js ''b'']]"
    using parseCSVText_total_forgiving [where csvText = "js ''a,b''" and body = "[]"] noq f
    by simp
  have h: "scanCSV (\<lambda>f. length f > 0) [] [[js ''x'']] [js ''a''] (js ''b'') True
      = [[js ''x''], [js ''a'', js ''b'']]"
    using parseCSVText_total_forgiving [where nonblank = "\<lambda>f. length f > 0" and rows = "[[js ''x'']]"
        and currentRow = "[js ''a'']" and currentField = "js ''b''" and inQuotes = True
        and body = "[]"]
    by (simp add: js_def)
  have i: "scanCSV (\<lambda>f. length f > 0) [] [[js ''x'']] [js ''a''] [] False
      = [[js ''x''], [js ''a'', []]]"
    using parseCSVText_total_forgiving [where nonblank = "\<lambda>f. length f > 0" and rows = "[[js ''x'']]"
        and currentRow = "[js ''a'']" and currentField = "[]" and inQuotes = False
        and body = "[]"]
    by (simp add: js_def)
  show ?thesis
    using a b c d f g h i unfolding body_def e by simp
qed

section \<open>Blank rows\<close>

text \<open>
  A header line, its line break, and then nothing but white space, line breaks and
  commas: the scan of the header leaves the rows empty, the line break pushes at most one
  row, and every row pushed after it has blank fields only.
\<close>

lemma scan_one_char:
  assumes "c \<noteq> LF" and "c \<noteq> CR" and "\<not> (c = QUOTE \<and> inq \<and> nextChar cs = Some QUOTE)"
  shows "\<exists>row1 field1 inq1.
           scanCSV nb (c # cs) rows row field inq = scanCSV nb cs rows row1 field1 inq1"
proof (cases "c = QUOTE")
  case True
  with assms(3) have "\<not> (inq \<and> nextChar cs = Some QUOTE)"
    by simp
  with True have "scanCSV nb (c # cs) rows row field inq = scanCSV nb cs rows row field (\<not> inq)"
    by (cases inq) auto
  then show ?thesis by blast
next
  case q: False
  show ?thesis
  proof (cases "c = COMMA \<and> \<not> inq")
    case True
    then have "scanCSV nb (c # cs) rows row field inq = scanCSV nb cs rows (row @ [field]) [] inq"
      by simp
    then show ?thesis by blast
  next
    case False
    with q assms(1,2)
    have "scanCSV nb (c # cs) rows row field inq = scanCSV nb cs rows row (field @ [c]) inq"
      by auto
    then show ?thesis by blast
  qed
qed

lemma scan_header:
  assumes "nextChar rest \<noteq> Some QUOTE" and "LF \<notin> set h" and "CR \<notin> set h"
  shows "\<exists>row' field' inq'.
           scanCSV nb (h @ rest) rows row field inq = scanCSV nb rest rows row' field' inq'"
  using assms(2,3)
proof (induction h arbitrary: row field inq rule: induct_list012)
  case 1
  show ?case
    unfolding append_Nil by blast
next
  case (2 c)
  then have "c \<noteq> LF" and "c \<noteq> CR"
    by auto
  then show ?case
    using scan_one_char [of c inq rest nb rows row field] assms(1) by simp
next
  case (3 c d h)
  then have c: "c \<noteq> LF" "c \<noteq> CR" and dh: "LF \<notin> set (d # h)" "CR \<notin> set (d # h)"
    and h: "LF \<notin> set h" "CR \<notin> set h"
    by auto
  note IH1 = "3.IH"(1) [OF h]
  note IH2 = "3.IH"(2) [OF dh]
  show ?case
  proof (cases "c = QUOTE \<and> inq \<and> d = QUOTE")
    case True
    then have "scanCSV nb ((c # d # h) @ rest) rows row field inq =
          scanCSV nb (h @ rest) rows row (field @ [QUOTE]) inq"
      by (simp add: nextChar_def)
    then show ?thesis
      using IH1 [of row "field @ [QUOTE]" inq] by simp
  next
    case False
    then have "\<not> (c = QUOTE \<and> inq \<and> nextChar ((d # h) @ rest) = Some QUOTE)"
      by (simp add: nextChar_def)
    from scan_one_char [OF c this, of nb rows row field]
    obtain row1 field1 inq1 where "scanCSV nb (c # (d # h) @ rest) rows row field inq =
          scanCSV nb ((d # h) @ rest) rows row1 field1 inq1"
      by blast
    then show ?thesis
      using IH2 [of row1 field1 inq1] by simp
  qed
qed

lemma pushRow_shape:
  assumes "list_all (list_all isWhiteSpace) row" and "list_all isWhiteSpace field"
  shows "\<exists>extra. pushRow nb rows row field = rows @ extra
           \<and> list_all (list_all (list_all isWhiteSpace)) extra"
proof (cases "list_ex nb (row @ [field])")
  case True
  then have "pushRow nb rows row field = rows @ [row @ [field]]"
    by (simp add: pushRow_def)
  moreover have "list_all (list_all (list_all isWhiteSpace)) [row @ [field]]"
    using assms by simp
  ultimately show ?thesis by blast
next
  case False
  then have "pushRow nb rows row field = rows @ []"
    by (simp add: pushRow_def)
  moreover have "list_all (list_all (list_all isWhiteSpace)) []"
    by simp
  ultimately show ?thesis by blast
qed

lemma not_blank_quote: "\<not> isWhiteSpace QUOTE" "\<not> isWhiteSpace COMMA" "isWhiteSpace LF" "isWhiteSpace CR"
  by (simp_all add: isWhiteSpace_def)

lemma scan_blank:
  assumes "\<forall>c \<in> set blank. isWhiteSpace c \<or> c = COMMA"
    and "list_all (list_all isWhiteSpace) row" and "list_all isWhiteSpace field"
  shows "\<exists>extra. scanCSV nb blank rows row field False = rows @ extra
           \<and> list_all (list_all (list_all isWhiteSpace)) extra"
  using assms
proof (induction blank arbitrary: rows row field rule: length_induct)
  case (1 blank)
  note IH = "1.IH" [rule_format]
  note row = \<open>list_all (list_all isWhiteSpace) row\<close>
  note field = \<open>list_all isWhiteSpace field\<close>
  show ?case
  proof (cases blank)
    case Nil
    show ?thesis
    proof (cases "field \<noteq> [] \<or> row \<noteq> []")
      case True
      then have "scanCSV nb blank rows row field False = pushRow nb rows row field"
        using Nil by simp
      then show ?thesis
        using pushRow_shape [OF row field, of nb rows] by simp
    next
      case False
      then have "scanCSV nb blank rows row field False = rows @ []"
        using Nil by simp
      moreover have "list_all (list_all (list_all isWhiteSpace)) []"
        by simp
      ultimately show ?thesis by blast
    qed
  next
    case (Cons c cs)
    have c: "isWhiteSpace c \<or> c = COMMA" and cs: "\<forall>c \<in> set cs. isWhiteSpace c \<or> c = COMMA"
      using "1.prems"(1) Cons by simp_all
    have tlcs: "\<forall>c \<in> set (tl cs). isWhiteSpace c \<or> c = COMMA"
      using cs by (cases cs) simp_all
    have nq: "c \<noteq> QUOTE"
      using c not_blank_quote(1) by auto
    define cs' where "cs' = (if c = CR \<and> nextChar cs = Some LF then tl cs else cs)"
    have "length cs' \<le> length cs"
      by (simp add: cs'_def)
    then have len': "length cs' < length blank"
      using Cons by simp
    have blank': "\<forall>c \<in> set cs'. isWhiteSpace c \<or> c = COMMA"
      using cs tlcs by (simp add: cs'_def)
    show ?thesis
    proof (cases "c = COMMA")
      case True
      then have "scanCSV nb blank rows row field False = scanCSV nb cs rows (row @ [field]) [] False"
        using Cons by simp
      moreover have "list_all (list_all isWhiteSpace) (row @ [field])"
        using row field by simp
      ultimately show ?thesis
        using IH [of cs "row @ [field]" "[]" rows] cs Cons by simp
    next
      case k: False
      show ?thesis
      proof (cases "c = LF \<or> c = CR")
        case True
        show ?thesis
        proof (cases "field \<noteq> [] \<or> row \<noteq> []")
          case p: True
          have step: "scanCSV nb blank rows row field False =
                scanCSV nb cs' (pushRow nb rows row field) [] [] False"
            using Cons True p nq k by (auto simp: cs'_def)
          from pushRow_shape [OF row field, of nb rows]
          obtain e1 where e1: "pushRow nb rows row field = rows @ e1"
            "list_all (list_all (list_all isWhiteSpace)) e1"
            by blast
          from IH [of cs' "[]" "[]" "rows @ e1"] len' blank'
          obtain e2 where e2: "scanCSV nb cs' (rows @ e1) [] [] False = (rows @ e1) @ e2"
            "list_all (list_all (list_all isWhiteSpace)) e2"
            by auto
          have "scanCSV nb blank rows row field False = rows @ (e1 @ e2)"
            using step e1(1) e2(1) by simp
          moreover have "list_all (list_all (list_all isWhiteSpace)) (e1 @ e2)"
            using e1(2) e2(2) by simp
          ultimately show ?thesis by blast
        next
          case p: False
          have step: "scanCSV nb blank rows row field False = scanCSV nb cs' rows row field False"
            using Cons True p nq k by (auto simp: cs'_def)
          show ?thesis
            unfolding step using IH [of cs' row field rows] len' blank' row field by simp
        qed
      next
        case False
        then have "scanCSV nb blank rows row field False = scanCSV nb cs rows row (field @ [c]) False"
          using Cons nq k by auto
        moreover have "list_all isWhiteSpace (field @ [c])"
          using field c k by simp
        ultimately show ?thesis
          using IH [of cs row "field @ [c]" rows] cs Cons row by simp
      qed
    qed
  qed
qed

lemma scan_header_blank:
  assumes h: "LF \<notin> set h" "CR \<notin> set h" and c0: "c0 = LF \<or> c0 = CR"
    and blank: "\<forall>c \<in> set blank. isWhiteSpace c \<or> c = COMMA"
  shows "\<exists>first extra. scanCSV nb (h @ c0 # blank) [] [] [] False = first @ extra
           \<and> length first \<le> 1 \<and> list_all (list_all (list_all isWhiteSpace)) extra"
proof -
  have c0q: "c0 \<noteq> QUOTE" "c0 \<noteq> COMMA"
    using c0 by auto
  then have "nextChar (c0 # blank) \<noteq> Some QUOTE"
    by (simp add: nextChar_def)
  from scan_header [OF this h, of nb "[]" "[]" "[]" False]
  obtain row field inq where st:
    "scanCSV nb (h @ c0 # blank) [] [] [] False = scanCSV nb (c0 # blank) [] row field inq"
    by blast
  have push1: "length (pushRow nb [] row f) \<le> 1" for f
    by (simp add: pushRow_def)
  show ?thesis
  proof (cases inq)
    case True
    have "QUOTE \<notin> set (c0 # blank)"
      using c0q blank not_blank_quote(1) by auto
    from scan_unterminated [OF this, of nb "[]" row field]
    have "scanCSV nb (c0 # blank) [] row field True = scanCSV nb [] [] row (field @ c0 # blank) True" .
    then have "scanCSV nb (h @ c0 # blank) [] [] [] False = pushRow nb [] row (field @ c0 # blank) @ []"
      using st True by simp
    moreover have "list_all (list_all (list_all isWhiteSpace)) []"
      by simp
    ultimately show ?thesis
      using push1 by blast
  next
    case False
    define cs' where "cs' = (if c0 = CR \<and> nextChar blank = Some LF then tl blank else blank)"
    have "\<forall>c \<in> set (tl blank). isWhiteSpace c \<or> c = COMMA"
      using blank by (cases blank) simp_all
    with blank have blank': "\<forall>c \<in> set cs'. isWhiteSpace c \<or> c = COMMA"
      by (simp add: cs'_def)
    define first where "first = (if field \<noteq> [] \<or> row \<noteq> [] then pushRow nb [] row field else [])"
    have "scanCSV nb (c0 # blank) [] row field False = scanCSV nb cs' first [] [] False"
      using c0 c0q by (auto simp: cs'_def first_def)
    moreover from scan_blank [OF blank', of "[]" "[]" nb first]
    obtain extra where "scanCSV nb cs' first [] [] False = first @ extra"
      "list_all (list_all (list_all isWhiteSpace)) extra"
      by auto
    moreover have "length first \<le> 1"
      using push1 by (simp add: first_def)
    ultimately show ?thesis
      using st False by auto
  qed
qed

lemma processRow_blank:
  assumes "list_all (list_all isWhiteSpace) row"
  shows "processRow row = None"
proof -
  have "column row 1 = []"
  proof (cases "1 < length row")
    case True
    then have "row ! 1 \<in> set row"
      by simp
    with assms have "\<forall>c \<in> set (row ! 1). isWhiteSpace c"
      unfolding list_all_iff by blast
    then have "trim (row ! 1) = []"
      unfolding trim_Nil_iff .
    with True show ?thesis
      by (simp add: column_def)
  next
    case False
    then show ?thesis
      by (simp add: column_def)
  qed
  then show ?thesis
    unfolding processRow_None_iff by blast
qed

lemma processRows_blank:
  "list_all (list_all (list_all isWhiteSpace)) rs \<Longrightarrow> processRows rs data = data"
  by (induction rs) (simp_all add: processRow_blank)

lemma normalizeRows_blank:
  assumes "length first \<le> 1" and "list_all (list_all (list_all isWhiteSpace)) extra"
  shows "normalizeRows (first @ extra) = []"
proof -
  have "list_all (list_all (list_all isWhiteSpace)) (tl (first @ extra))"
  proof (cases first)
    case Nil
    with assms(2) show ?thesis
      by (cases extra) simp_all
  next
    case (Cons r rs)
    with assms(1) have "rs = []"
      by simp
    with Cons assms(2) show ?thesis
      by simp
  qed
  then show ?thesis
    by (simp add: normalizeRows_def processRows_blank)
qed

lemma header_then_blank_lines:
  assumes "LF \<notin> set header" "CR \<notin> set header" and "c0 = LF \<or> c0 = CR"
    and "\<forall>c \<in> set blank. isWhiteSpace c \<or> c = COMMA"
  shows "parseCSVData (header @ c0 # blank) = []"
    and "parseCSVData_v2 (header @ c0 # blank) = []"
proof -
  from scan_header_blank [OF assms, of "\<lambda>field. length (trim field) > 0"]
  show "parseCSVData (header @ c0 # blank) = []"
    unfolding parseCSVData_def parseCSVText_def using normalizeRows_blank by auto
  from scan_header_blank [OF assms, of "\<lambda>f. length f > 0"]
  show "parseCSVData_v2 (header @ c0 # blank) = []"
    unfolding parseCSVData_v2_def parseCSVText_v2_def using normalizeRows_blank by auto
qed

text \<open>
  C6 on the first copy of \<^verbatim>\<open>parseCSVText\<close> (lines 205 to 250): every row of its result
  has a field with a character that is not white space, so a row whose fields are all
  empty or blank is never in the result, whether its line was ended by a line break or
  by the end of the input.
\<close>

lemma parseCSVText_discards_blank_rows:
  "list_all (list_ex (\<lambda>field. \<exists>c \<in> set field. \<not> isWhiteSpace c)) (parseCSVText csvText)"
  by (rule parseCSVText_rows_nonblank)

text \<open>
  C6 on the second copy (lines 778 to 829), whose test is \<^verbatim>\<open>f.length > 0\<close>: the line of
  three spaces after the header is kept as a row of one field; the first copy drops it.
  Through \<^verbatim>\<open>parseCSVData\<close> neither copy gives a record for a header followed by blank
  lines (lemma \<open>header_then_blank_lines\<close>).
\<close>

theorem parseCSVText_v2_keeps_whitespace_row:
  "parseCSVText_v2 (js ''Id,Name,Lat,Lon'' @ [LF] @ js ''   '' @ [LF])
     = [[js ''Id'', js ''Name'', js ''Lat'', js ''Lon''], [js ''   '']]
   \<and> parseCSVText (js ''Id,Name,Lat,Lon'' @ [LF] @ js ''   '' @ [LF])
     = [[js ''Id'', js ''Name'', js ''Lat'', js ''Lon'']]"
  by (simp add: parseCSVText_v2_def parseCSVText_def js_def nextChar_def pushRow_def trim_def
      isWhiteSpace_def)

end
